theory Spec2Isabelle
  imports Main
begin

section \<open>Promises\<close>

text \<open>
  A JavaScript promise is pending, fulfilled with a value or rejected with a reason.
  \<open>resolve\<close> and \<open>reject\<close> act on a pending promise only: the first settlement wins and
  every later call is ignored. This is the language's own semantics of \<open>new Promise\<close>.
\<close>

datatype ('e, 'a) promise = Pending | Fulfilled 'a | Rejected 'e

definition resolve :: "'a \<Rightarrow> ('e, 'a) promise \<Rightarrow> ('e, 'a) promise" where
  "resolve v p = (case p of Pending \<Rightarrow> Fulfilled v | _ \<Rightarrow> p)"

definition reject :: "'e \<Rightarrow> ('e, 'a) promise \<Rightarrow> ('e, 'a) promise" where
  "reject e p = (case p of Pending \<Rightarrow> Rejected e | _ \<Rightarrow> p)"

section \<open>The readiness watcher: \<open>waitForEndpoint\<close>\<close>

text \<open>
  A chunk of process output is a list of bytes. \<open>data.toString('ascii')\<close> clears the
  highest bit of every byte; \<open>error.toString()\<close> decodes UTF-8, which maps every ASCII
  byte to itself and never produces an ASCII character from any other byte, so a search
  for the ASCII text \<open>EADDRINUSE\<close> in the decoded string is a search in the bytes.
\<close>

definition clear_high_bit :: "char \<Rightarrow> char" where
  "clear_high_bit c =
     Char (digit0 c) (digit1 c) (digit2 c) (digit3 c) (digit4 c) (digit5 c) (digit6 c) False"

definition toString_ascii :: "string \<Rightarrow> string" where
  "toString_ascii data = map clear_high_bit data"

text \<open>
  The regular expression \<open>/Web UI available at (.+)/\<close>. The dot matches every character
  but a line terminator; in 7-bit text these are line feed and carriage return. \<open>.+\<close> is
  greedy, so the group is the longest run of such characters after the literal text, and
  it must not be empty. \<open>String.prototype.match\<close> tries the start positions from left to
  right and returns the first match.
\<close>

definition lineTerminator :: "char \<Rightarrow> bool" where
  "lineTerminator c = (c = CHR 0x0A \<or> c = CHR 0x0D)"

definition marker :: string where
  "marker = ''Web UI available at ''"

definition match_here :: "string \<Rightarrow> string option" where
  "match_here s =
     (if take (length marker) s = marker
      then (let g = takeWhile (\<lambda>c. \<not> lineTerminator c) (drop (length marker) s)
            in if g = [] then None else Some g)
      else None)"

fun match_endpoint :: "string \<Rightarrow> string option" where
  "match_endpoint [] = None"
| "match_endpoint (c # cs) =
     (case match_here (c # cs) of Some g \<Rightarrow> Some g | None \<Rightarrow> match_endpoint cs)"

text \<open>
  The pattern in the spec's words, to compare \<open>match_endpoint\<close> with: \<open>g\<close> is the first
  capturing group of the match of \<open>Web UI available at (.+)\<close> in \<open>s\<close> when \<open>s\<close> contains the
  literal text followed by \<open>g\<close>, where \<open>g\<close> is not empty, holds no line feed and no carriage
  return and ends at the end of \<open>s\<close> or before one of these two, and no earlier position
  of \<open>s\<close> has the literal text followed by a character other than these two.
\<close>

definition first_capturing_group :: "string \<Rightarrow> string \<Rightarrow> bool" where
  "first_capturing_group s g =
     (\<exists>pre rest. s = pre @ ''Web UI available at '' @ g @ rest
        \<and> g \<noteq> [] \<and> (\<forall>c\<in>set g. c \<noteq> CHR 0x0A \<and> c \<noteq> CHR 0x0D)
        \<and> (rest = [] \<or> hd rest = CHR 0x0A \<or> hd rest = CHR 0x0D)
        \<and> (\<forall>i<length pre.
              \<not> (\<exists>c u. drop i s = ''Web UI available at '' @ c # u
                       \<and> c \<noteq> CHR 0x0A \<and> c \<noteq> CHR 0x0D)))"

text \<open>\<open>s.indexOf(sub) !== -1\<close>: the text occurs somewhere in the string.\<close>

fun has_substring :: "string \<Rightarrow> string \<Rightarrow> bool" where
  "has_substring sub [] = (sub = [])"
| "has_substring sub (c # cs) = (take (length sub) (c # cs) = sub \<or> has_substring sub cs)"

datatype server_event =
    Stdout string
  | Stderr string
  | ServerExit int

record watcher =
  endpointFound :: bool
  future :: "(string, string) promise"
  logged :: "string list"

definition watcher_init :: watcher where
  "watcher_init = \<lparr>endpointFound = False, future = Pending, logged = []\<rparr>"

text \<open>
  One listener call. \<open>waitForEndpoint\<close> subscribes to \<open>stdout\<close> and to \<open>stderr\<close> and to
  nothing else, so an exit of the server reaches no listener and leaves the watcher as
  it is.
\<close>

fun on_event :: "server_event \<Rightarrow> watcher \<Rightarrow> watcher" where
  "on_event (Stdout data) w =
     (let w1 = (if \<not> endpointFound w
                then w\<lparr>logged := logged w @ [''[server] stdout: '' @ data]\<rparr> else w)
      in case match_endpoint (toString_ascii data) of
           Some g \<Rightarrow> w1\<lparr>endpointFound := True, future := resolve g (future w1)\<rparr>
         | None \<Rightarrow> w1)"
| "on_event (Stderr error) w =
     (let w1 = (if \<not> endpointFound w
                then w\<lparr>logged := logged w @ [''[server] stderr: '' @ error]\<rparr> else w)
      in if has_substring ''EADDRINUSE'' error
         then w1\<lparr>future := reject error (future w1)\<rparr>
         else w1)"
| "on_event (ServerExit code) w = w"

definition waitForEndpoint_from :: "watcher \<Rightarrow> server_event list \<Rightarrow> watcher" where
  "waitForEndpoint_from w es = foldl (\<lambda>w e. on_event e w) w es"

definition waitForEndpoint :: "server_event list \<Rightarrow> (string, string) promise" where
  "waitForEndpoint es = future (waitForEndpoint_from watcher_init es)"

text \<open>What a single event asks of the future.\<close>

fun matches_marker :: "server_event \<Rightarrow> bool" where
  "matches_marker (Stdout data) = (match_endpoint (toString_ascii data) \<noteq> None)"
| "matches_marker _ = False"

fun port_conflict :: "server_event \<Rightarrow> bool" where
  "port_conflict (Stderr error) = has_substring ''EADDRINUSE'' error"
| "port_conflict _ = False"

section \<open>Termination: \<open>teardown\<close>\<close>

text \<open>
  The operating system is a parameter: attempt \<open>n\<close> (counted from 1, as \<open>retries\<close> is)
  of the tree-kill either succeeds or fails with an error, and the liveness probe
  \<open>process.kill(pid, 0)\<close> made after a failed attempt either returns or throws.
\<close>

record os =
  treeKill :: "nat \<Rightarrow> string option"
  probeThrows :: "nat \<Rightarrow> bool"

text \<open>
  What \<open>teardown\<close> does to the outside, in order: a tree-kill request, a liveness probe,
  the log line of a failed attempt (pid, attempt, error) and the final log line (attempts).
\<close>

datatype teardown_effect =
    TreeKill nat
  | Probe nat
  | LogAttemptFailed nat nat string
  | LogGaveUp nat

definition promisify_kill :: "os \<Rightarrow> nat \<Rightarrow> nat \<Rightarrow> string + unit" where
  "promisify_kill env n serverPid = (case treeKill env n of None \<Rightarrow> Inr () | Some e \<Rightarrow> Inl e)"

definition process_kill0 :: "os \<Rightarrow> nat \<Rightarrow> nat \<Rightarrow> string + unit" where
  "process_kill0 env n serverPid = (if probeThrows env n then Inl ''ESRCH'' else Inr ())"

text \<open>
  The loop \<open>while (retries < 3)\<close>. The result is the outcome of the promise that
  \<open>teardown\<close> returns (\<open>Inl\<close> would be a rejection) and the effects in order.
\<close>

function teardown_loop :: "os \<Rightarrow> nat \<Rightarrow> nat \<Rightarrow> teardown_effect list
    \<Rightarrow> (string + unit) \<times> teardown_effect list" where
  "teardown_loop env serverPid retries eff =
     (if retries < 3 then
        (let retries' = retries + 1 in
         case promisify_kill env retries' serverPid of
           Inr u \<Rightarrow> (Inr u, eff @ [TreeKill serverPid])
         | Inl error \<Rightarrow>
             (case process_kill0 env retries' serverPid of
                Inr _ \<Rightarrow> teardown_loop env serverPid retries'
                           (eff @ [TreeKill serverPid, Probe serverPid,
                                   LogAttemptFailed serverPid retries' error])
              | Inl _ \<Rightarrow> (Inr (), eff @ [TreeKill serverPid, Probe serverPid])))
      else (Inr (), eff @ [LogGaveUp retries]))"
  by pat_completeness auto
termination
  by (relation "measure (\<lambda>(env, serverPid, retries, eff). 3 - retries)") auto

declare teardown_loop.simps [simp del]

definition teardown :: "os \<Rightarrow> nat option \<Rightarrow> (string + unit) \<times> teardown_effect list" where
  "teardown env serverPid =
     (case serverPid of None \<Rightarrow> (Inr (), []) | Some pid \<Rightarrow> teardown_loop env pid 0 [])"

fun is_kill :: "teardown_effect \<Rightarrow> bool" where
  "is_kill (TreeKill _) = True"
| "is_kill _ = False"

definition attempts :: "teardown_effect list \<Rightarrow> nat" where
  "attempts eff = length (filter is_kill eff)"

text \<open>The effects of one failed attempt against a process that is still alive.\<close>

definition failed_attempt :: "nat \<Rightarrow> nat \<Rightarrow> string \<Rightarrow> teardown_effect list" where
  "failed_attempt pid n error = [TreeKill pid, Probe pid, LogAttemptFailed pid n error]"

text \<open>A failed tree-kill after which the probe finds the process alive.\<close>

definition alive_after_failure :: "os \<Rightarrow> nat \<Rightarrow> bool" where
  "alive_after_failure env k = (treeKill env k \<noteq> None \<and> \<not> probeThrows env k)"

text \<open>An operating system on which the second tree-kill is the first to succeed.\<close>

definition os_second_kill :: os where
  "os_second_kill =
     \<lparr>treeKill = (\<lambda>n. if n = 2 then None else Some ''EPERM''), probeThrows = (\<lambda>n. False)\<rparr>"

section \<open>The tunnel supervisor: \<open>RemoteTunnelService\<close>\<close>

record account =
  authenticationProviderId :: string
  token :: string

datatype notification =
    TokenFailed bool
  | TunnelFailed
  | DidChangeAccount "account option"

text \<open>
  Everything the service does to the outside, in order. A child process is named by the
  handle of the operation that spawned it; \<open>Spawn\<close> carries the command and its arguments.
\<close>

datatype effect =
    ConsoleLog string
  | LogInfo string
  | LogError
  | Telemetry bool
  | Fire notification
  | Spawn nat string "string list"
  | Kill nat

datatype phase = Login | Serve

definition logLabel :: "phase \<Rightarrow> string" where
  "logLabel ph = (case ph of Login \<Rightarrow> ''login'' | Serve \<Rightarrow> ''tunnel'')"

text \<open>
  The operating system's view of a child: running, sent the signal of
  \<open>ChildProcess.kill()\<close> but not yet gone, or exited. \<open>kill()\<close> only sends a signal.
\<close>

datatype proc_status = Running | Signaled | Exited

definition signal :: "proc_status \<Rightarrow> proc_status" where
  "signal st = (case st of Running \<Rightarrow> Signaled | _ \<Rightarrow> st)"

datatype rejection = NoReason | Canceled

text \<open>
  Modelled from the spec: \<open>createCancelablePromise\<close> and \<open>CancelablePromise\<close> of
  \<open>vs/base/common/async\<close> are not among the source files. The spec (4.3) says that
  \<open>cancel()\<close> flips the token, that it is idempotent and does nothing after settlement,
  that the wrapped work observes the token, and that the operation settles at most once;
  whether a cancelled operation resolves or rejects is left open ("implementer's
  choice"). The choice is a parameter: \<open>cancel()\<close> rejects the operation at once, resolves
  it at once, or leaves it to settle as the wrapped work does.
\<close>

datatype on_cancel = RejectsOnCancel | ResolvesOnCancel | SettlesWithWork

record config =
  vscode_dev :: bool
  tunnelCommand :: string
  cancellation :: on_cancel

text \<open>
  One call of \<open>runCodeTunneCommand\<close>: the token, the closure variable \<open>tunnelProcess\<close>
  (\<open>child\<close> says whether it is defined), the promise built inside the callback (\<open>work\<close>),
  the promise of the cancelable operation that the caller holds (\<open>outcome\<close>), and the
  status of the spawned child.
\<close>

record operation =
  phase_of :: phase
  isCancellationRequested :: bool
  child :: bool
  work :: "(rejection, unit) promise"
  outcome :: "(rejection, unit) promise"
  proc :: proc_status

text \<open>
  The service: \<open>_account\<close>, \<open>_tunnelProcess\<close> (a reference to an operation, here its
  index in the list of all operations started so far) and the effects so far.
\<close>

record service =
  the_account :: "account option"
  tunnelProcess :: "nat option"
  operations :: "operation list"
  effects :: "effect list"

definition service_init :: service where
  "service_init = \<lparr>the_account = None, tunnelProcess = None, operations = [], effects = []\<rparr>"

definition emit :: "effect list \<Rightarrow> service \<Rightarrow> service" where
  "emit es s = s\<lparr>effects := effects s @ es\<rparr>"

definition update_op :: "nat \<Rightarrow> (operation \<Rightarrow> operation) \<Rightarrow> service \<Rightarrow> service" where
  "update_op i f s = s\<lparr>operations := (operations s)[i := f (operations s ! i)]\<rparr>"

definition spawn_command :: "config \<Rightarrow> string list \<Rightarrow> string \<times> string list" where
  "spawn_command cfg commandArgs =
     (if vscode_dev cfg then (''cargo'', [''run'', ''--''] @ commandArgs)
      else (tunnelCommand cfg, commandArgs))"

text \<open>
  \<open>runCodeTunneCommand\<close>, up to the point where it returns the new operation, whose handle
  is the length of the list before the call. The callback receives the token; its first
  statement resolves the inner promise when the token is already cancelled and then goes
  on (there is no \<open>return\<close>), so the child is spawned in either case. The callers below
  pass a token that is not cancelled: the operation is new when its callback runs.
\<close>

definition runCodeTunneCommand :: "config \<Rightarrow> phase \<Rightarrow> string list \<Rightarrow> bool \<Rightarrow> service \<Rightarrow> service" where
  "runCodeTunneCommand cfg ph commandArgs cancellationRequested s =
     (let handle = length (operations s);
          inner = (if cancellationRequested then resolve () Pending else Pending);
          cmd = spawn_command cfg commandArgs;
          operation = \<lparr>phase_of = ph, isCancellationRequested = cancellationRequested,
                       child = True, work = inner, outcome = Pending, proc = Running\<rparr>
      in emit [LogInfo (logLabel ph @ '' Spawning''), Spawn handle (fst cmd) (snd cmd)]
           (s\<lparr>operations := operations s @ [operation]\<rparr>))"

text \<open>
  Modelled from the spec: \<open>cancel()\<close> of the cancelable operation, which is not among the
  source files. On a settled operation, or one whose token is already flipped, nothing
  happens. Otherwise the token is flipped, the listener registered by
  \<open>runCodeTunneCommand\<close> runs (it signals the child when there is one), and the operation
  settles as the parameter says.
\<close>

definition cancel :: "config \<Rightarrow> nat \<Rightarrow> service \<Rightarrow> service" where
  "cancel cfg i s =
     (let operation = operations s ! i in
      if outcome operation \<noteq> Pending \<or> isCancellationRequested operation then s
      else
        (let s1 = update_op i (\<lambda>x. x\<lparr>isCancellationRequested := True\<rparr>) s;
             s2 = (if child operation
                   then update_op i (\<lambda>x. x\<lparr>proc := signal (proc x)\<rparr>)
                          (emit [LogInfo (logLabel (phase_of operation) @ '' terminating''),
                                 Kill i] s1)
                   else s1)
         in case cancellation cfg of
              RejectsOnCancel \<Rightarrow> update_op i (\<lambda>x. x\<lparr>outcome := reject Canceled (outcome x)\<rparr>) s2
            | ResolvesOnCancel \<Rightarrow> update_op i (\<lambda>x. x\<lparr>outcome := resolve () (outcome x)\<rparr>) s2
            | SettlesWithWork \<Rightarrow> s2))"

text \<open>
  The handler given to \<open>serveCommand.finally\<close>: it acts only when the serve operation is
  still the one in \<open>_tunnelProcess\<close>.
\<close>

definition serve_finally :: "nat \<Rightarrow> service \<Rightarrow> service" where
  "serve_finally serveCommand s =
     (if tunnelProcess s = Some serveCommand
      then emit [Fire TunnelFailed]
             ((emit [LogInfo ''tunnel process terminated''] s)
                \<lparr>the_account := None, tunnelProcess := None\<rparr>)
      else s)"

text \<open>
  \<open>updateTunnelProcess\<close> after \<open>await loginProcess\<close>: the \<open>catch\<close> block when the operation
  was rejected, then the test \<open>this._tunnelProcess === loginProcess\<close> and the start of the
  serve command.
\<close>

definition after_login :: "config \<Rightarrow> nat \<Rightarrow> service \<Rightarrow> service" where
  "after_login cfg loginProcess s =
     (let s1 = (case outcome (operations s ! loginProcess) of
                  Rejected e \<Rightarrow> emit [Fire (TokenFailed True)]
                                 ((emit [LogError] s)\<lparr>tunnelProcess := None\<rparr>)
                | _ \<Rightarrow> s)
      in if tunnelProcess s1 = Some loginProcess
         then (let serveCommand = length (operations s1)
               in (runCodeTunneCommand cfg Serve [''tunnel''] False s1)
                    \<lparr>tunnelProcess := Some serveCommand\<rparr>)
         else s1)"

text \<open>The code that waits for an operation to settle.\<close>

definition continuation :: "config \<Rightarrow> nat \<Rightarrow> service \<Rightarrow> service" where
  "continuation cfg i s =
     (case phase_of (operations s ! i) of
        Login \<Rightarrow> after_login cfg i s
      | Serve \<Rightarrow> serve_finally i s)"

text \<open>
  The inner promise is asked to settle with \<open>r\<close>. If it is still pending it settles, the
  operation follows it unless it has settled before (modelled from the spec: the operation
  wraps the work and settles at most once), and then the waiting code runs.
\<close>

definition work_settled :: "config \<Rightarrow> nat \<Rightarrow> (rejection, unit) promise \<Rightarrow> service \<Rightarrow> service" where
  "work_settled cfg i r s =
     (let operation = operations s ! i in
      if work operation \<noteq> Pending then s
      else
        (let s1 = update_op i (\<lambda>x. x\<lparr>work := r\<rparr>) s
         in if outcome operation = Pending
            then continuation cfg i (update_op i (\<lambda>x. x\<lparr>outcome := r\<rparr>) s1)
            else s1))"

text \<open>
  The listeners for \<open>exit\<close> and \<open>error\<close> of a child. The exit code is logged only. An exit
  ends the child; an \<open>error\<close> event says nothing about whether the child runs, so it leaves
  the status as it is.
\<close>

definition on_exit :: "config \<Rightarrow> nat \<Rightarrow> int \<Rightarrow> service \<Rightarrow> service" where
  "on_exit cfg i e s =
     (let s0 = update_op i (\<lambda>x. x\<lparr>proc := Exited\<rparr>) s
      in if child (operations s ! i)
         then work_settled cfg i (Fulfilled ())
                (update_op i (\<lambda>x. x\<lparr>child := False\<rparr>)
                   (emit [LogInfo (logLabel (phase_of (operations s ! i)) @ '' exit'')] s0))
         else s0)"

definition on_error :: "config \<Rightarrow> nat \<Rightarrow> service \<Rightarrow> service" where
  "on_error cfg i s =
     (if child (operations s ! i)
      then work_settled cfg i (Rejected NoReason)
             (update_op i (\<lambda>x. x\<lparr>child := False\<rparr>)
                (emit [LogInfo (logLabel (phase_of (operations s ! i)) @ '' error'')] s))
      else s)"

text \<open>
  \<open>updateTunnelProcess\<close> up to its \<open>await\<close>, followed by the code that was waiting for the
  cancelled operation when \<open>cancel()\<close> settled it: that code runs as a microtask, after
  the synchronous part has spawned the new login command and stored it.
\<close>

definition updateTunnelProcess :: "config \<Rightarrow> service \<Rightarrow> service" where
  "updateTunnelProcess cfg s =
     (let active = tunnelProcess s;
          s1 = (case active of
                  Some i \<Rightarrow> (cancel cfg i s)\<lparr>tunnelProcess := None\<rparr>
                | None \<Rightarrow> s);
          s2 = (case the_account s1 of
                  None \<Rightarrow> s1
                | Some a \<Rightarrow>
                    (let loginProcess = length (operations s1)
                     in (runCodeTunneCommand cfg Login
                           [''tunnel'', ''user'', ''login'',
                            ''--provider'', authenticationProviderId a,
                            ''--access-token'', token a] False s1)
                          \<lparr>tunnelProcess := Some loginProcess\<rparr>))
      in case active of
           Some i \<Rightarrow>
             if outcome (operations s ! i) = Pending \<and> outcome (operations s2 ! i) \<noteq> Pending
             then continuation cfg i s2 else s2
         | None \<Rightarrow> s2)"

definition account_changed :: "account option \<Rightarrow> account option \<Rightarrow> bool" where
  "account_changed a cur =
     (case (a, cur) of
        (Some x, Some y) \<Rightarrow>
          token x \<noteq> token y \<or> authenticationProviderId x \<noteq> authenticationProviderId y
      | _ \<Rightarrow> a \<noteq> cur)"

definition updateAccount :: "config \<Rightarrow> account option \<Rightarrow> service \<Rightarrow> service" where
  "updateAccount cfg a s =
     (let s0 = emit [ConsoleLog ''updateAccount''] s
      in if account_changed a (the_account s0)
         then updateTunnelProcess cfg
                (emit [Fire (DidChangeAccount a),
                       LogInfo (''Account updated: '' @
                                (case a of Some x \<Rightarrow> authenticationProviderId x
                                 | None \<Rightarrow> ''undefined'')),
                       Telemetry (a \<noteq> None)]
                   (s0\<lparr>the_account := a\<rparr>))
         else s0)"

text \<open>
  What can happen to a service: a call of \<open>updateAccount\<close>, and the \<open>exit\<close> (once per
  child, with its code) and \<open>error\<close> events of the children it has spawned. Each is taken
  together with the microtasks it causes.
\<close>

datatype event =
    UpdateAccount "account option"
  | ProcExit nat int
  | ProcError nat

fun step :: "config \<Rightarrow> event \<Rightarrow> service \<Rightarrow> service" where
  "step cfg (UpdateAccount a) s = updateAccount cfg a s"
| "step cfg (ProcExit i e) s =
     (if i < length (operations s) \<and> proc (operations s ! i) \<noteq> Exited
      then on_exit cfg i e s else s)"
| "step cfg (ProcError i) s =
     (if i < length (operations s) then on_error cfg i s else s)"

definition run :: "config \<Rightarrow> event list \<Rightarrow> service" where
  "run cfg es = foldl (\<lambda>s e. step cfg e s) service_init es"

text \<open>The children that have not exited, and the effects on children.\<close>

definition live :: "service \<Rightarrow> nat" where
  "live s = length (filter (\<lambda>x. proc x \<noteq> Exited) (operations s))"

fun on_child :: "effect \<Rightarrow> bool" where
  "on_child (Spawn _ _ _) = True"
| "on_child (Kill _) = True"
| "on_child _ = False"

fun is_fire :: "effect \<Rightarrow> bool" where
  "is_fire (Fire _) = True"
| "is_fire _ = False"

definition since :: "service \<Rightarrow> service \<Rightarrow> effect list" where
  "since s s' = drop (length (effects s)) (effects s')"

text \<open>
  What holds of the operation in \<open>_tunnelProcess\<close> in every state the service reaches: it
  exists, nothing has settled or cancelled it, and its child has not been signalled.
\<close>

definition active_ok :: "operation \<Rightarrow> bool" where
  "active_ok x = (outcome x = Pending \<and> work x = Pending \<and> child x
                  \<and> \<not> isCancellationRequested x \<and> proc x = Running)"

definition inv :: "service \<Rightarrow> bool" where
  "inv s = (case tunnelProcess s of
              None \<Rightarrow> True
            | Some i \<Rightarrow> i < length (operations s) \<and> active_ok (operations s ! i))"

text \<open>The arguments of the login command for an account.\<close>

definition login_args :: "account \<Rightarrow> string list" where
  "login_args x = [''tunnel'', ''user'', ''login'', ''--provider'', authenticationProviderId x,
                   ''--access-token'', token x]"

text \<open>A packaged configuration for each way of cancelling, and two accounts.\<close>

definition cfg_of :: "on_cancel \<Rightarrow> config" where
  "cfg_of c = \<lparr>vscode_dev = False, tunnelCommand = ''code-tunnel'', cancellation = c\<rparr>"

definition github_t1 :: account where
  "github_t1 = \<lparr>authenticationProviderId = ''github'', token = ''t1''\<rparr>"

definition github_t2 :: account where
  "github_t2 = \<lparr>authenticationProviderId = ''github'', token = ''t2''\<rparr>"

section \<open>The logger registry of the main process: \<open>LoggerMainService\<close>\<close>

text \<open>
  A resource is identified by its URI (the key of the \<open>ResourceMap\<close>). The registry of the
  base class \<open>LoggerService\<close> is not among the source files: \<open>registered\<close> is what
  \<open>super.getRegisteredLoggers()\<close> yields, and \<open>super.registerLogger\<close> is a parameter.
\<close>

type_synonym uri = string

record logger_resource =
  resource :: uri
  name :: string

record logger_main =
  registered :: "logger_resource list"
  loggerResourcesByWindow :: "uri \<rightharpoonup> nat"

definition logger_main_init :: logger_main where
  "logger_main_init = \<lparr>registered = [], loggerResourcesByWindow = Map.empty\<rparr>"

definition registerLogger ::
    "(logger_resource \<Rightarrow> logger_resource list \<Rightarrow> logger_resource list)
     \<Rightarrow> logger_resource \<Rightarrow> nat option \<Rightarrow> logger_main \<Rightarrow> logger_main" where
  "registerLogger super_registerLogger r windowId s =
     (let s1 = (case windowId of
                  Some w \<Rightarrow> s\<lparr>loggerResourcesByWindow :=
                                (loggerResourcesByWindow s)(resource r \<mapsto> w)\<rparr>
                | None \<Rightarrow> s)
      in s1\<lparr>registered := super_registerLogger r (registered s1)\<rparr>)"

definition isInterestedLoggerResource :: "logger_main \<Rightarrow> uri \<Rightarrow> nat option \<Rightarrow> bool" where
  "isInterestedLoggerResource s u windowId =
     (let loggerWindowId = loggerResourcesByWindow s u
      in loggerWindowId = None \<or> loggerWindowId = windowId)"

definition getRegisteredLoggers :: "logger_main \<Rightarrow> nat option \<Rightarrow> logger_resource list" where
  "getRegisteredLoggers s windowId =
     foldl (\<lambda>resources r.
              if isInterestedLoggerResource s (resource r) windowId
              then resources @ [r] else resources)
       [] (registered s)"

text \<open>A history of \<open>registerLogger\<close> calls on a new service.\<close>

definition register_all ::
    "(logger_resource \<Rightarrow> logger_resource list \<Rightarrow> logger_resource list)
     \<Rightarrow> (logger_resource \<times> nat option) list \<Rightarrow> logger_main" where
  "register_all super_registerLogger calls =
     foldl (\<lambda>s c. registerLogger super_registerLogger (fst c) (snd c) s) logger_main_init calls"

text \<open>
  The window a URI is bound to after a history of \<open>registerLogger\<close> calls, read off the
  history: the window id of the latest call for that URI that carried one, if any.
\<close>

definition bound_window :: "(logger_resource \<times> nat option) list \<Rightarrow> uri \<Rightarrow> nat option" where
  "bound_window calls u =
     (case filter (\<lambda>c. resource (fst c) = u \<and> snd c \<noteq> None) calls of
        [] \<Rightarrow> None
      | c # cs \<Rightarrow> snd (last (c # cs)))"

text \<open>
  A base registry that appends a resource unless its URI is registered already, and three
  resources.
\<close>

definition keep_first :: "logger_resource \<Rightarrow> logger_resource list \<Rightarrow> logger_resource list" where
  "keep_first r rs = (if resource r \<in> resource ` set rs then rs else rs @ [r])"

definition main_log :: logger_resource where
  "main_log = \<lparr>resource = ''file:///logs/main.log'', name = ''Main''\<rparr>"

definition window1_log :: logger_resource where
  "window1_log = \<lparr>resource = ''file:///logs/window1/renderer.log'', name = ''Window''\<rparr>"

definition window2_log :: logger_resource where
  "window2_log = \<lparr>resource = ''file:///logs/window2/renderer.log'', name = ''Window''\<rparr>"

section \<open>Properties of the readiness watcher\<close>

lemma resolve_settled [simp]: "p \<noteq> Pending \<Longrightarrow> resolve v p = p"
  by (cases p) (simp_all add: resolve_def)

lemma reject_settled [simp]: "p \<noteq> Pending \<Longrightarrow> reject e p = p"
  by (cases p) (simp_all add: reject_def)

lemma on_event_settled: "future w \<noteq> Pending \<Longrightarrow> future (on_event e w) = future w"
  by (cases e) (simp_all add: Let_def split: option.splits)

lemma from_settled: "future w \<noteq> Pending \<Longrightarrow> future (waitForEndpoint_from w es) = future w"
  unfolding waitForEndpoint_from_def
  by (induction es arbitrary: w) (simp_all add: on_event_settled)

lemma from_append: "waitForEndpoint_from w (xs @ ys) = waitForEndpoint_from (waitForEndpoint_from w xs) ys"
  by (simp add: waitForEndpoint_from_def)

lemma from_Cons: "waitForEndpoint_from w (x # xs) = waitForEndpoint_from (on_event x w) xs"
  by (simp add: waitForEndpoint_from_def)

lemma on_event_quiet:
  "\<not> matches_marker e \<Longrightarrow> \<not> port_conflict e \<Longrightarrow> future (on_event e w) = future w"
  by (cases e) (simp_all add: Let_def split: option.splits)

lemma on_event_pending_iff:
  "future w = Pending \<Longrightarrow> future (on_event e w) = Pending \<longleftrightarrow> \<not> matches_marker e \<and> \<not> port_conflict e"
  by (cases e) (auto simp add: Let_def resolve_def reject_def split: option.splits)

lemma from_pending_iff:
  "future w = Pending \<Longrightarrow>
   future (waitForEndpoint_from w es) = Pending \<longleftrightarrow> (\<forall>e\<in>set es. \<not> matches_marker e \<and> \<not> port_conflict e)"
proof (induction es arbitrary: w)
  case Nil
  then show ?case by (simp add: waitForEndpoint_from_def)
next
  case (Cons e es)
  show ?case
  proof (cases "future (on_event e w) = Pending")
    case True
    with Cons show ?thesis by (simp add: from_Cons on_event_pending_iff)
  next
    case False
    then have "future (waitForEndpoint_from (on_event e w) es) \<noteq> Pending"
      by (simp add: from_settled)
    with False Cons.prems show ?thesis
      by (auto simp add: from_Cons on_event_pending_iff)
  qed
qed

lemma no_marker_not_fulfilled:
  "\<forall>e\<in>set es. \<not> matches_marker e \<Longrightarrow> future w = Pending \<Longrightarrow>
   future (waitForEndpoint_from w es) = Pending \<or>
   (\<exists>d. Stderr d \<in> set es \<and> has_substring ''EADDRINUSE'' d \<and> future (waitForEndpoint_from w es) = Rejected d)"
proof (induction es arbitrary: w)
  case Nil
  then show ?case by (simp add: waitForEndpoint_from_def)
next
  case (Cons e es)
  show ?case
  proof (cases "port_conflict e")
    case True
    then obtain d where e: "e = Stderr d" and d: "has_substring ''EADDRINUSE'' d"
      by (cases e) auto
    with Cons.prems have "future (on_event e w) = Rejected d"
      by (simp add: Let_def reject_def)
    then have "future (waitForEndpoint_from (on_event e w) es) = Rejected d"
      by (simp add: from_settled)
    with e d show ?thesis by (auto simp add: from_Cons)
  next
    case False
    with Cons.prems have "future (on_event e w) = Pending"
      by (simp add: on_event_quiet)
    with Cons.IH [of "on_event e w"] Cons.prems show ?thesis
      by (auto simp add: from_Cons)
  qed
qed

text \<open>
  C6 (as amended). \<open>waitForEndpoint\<close> has no listener for the exit of the server: an exit
  leaves the watcher unchanged, and the readiness future is still pending after a trace
  exactly when no stdout chunk of the trace matches the readiness marker and no stderr
  chunk contains \<open>EADDRINUSE\<close>. A server that exits before either leaves the future
  pending.
\<close>

theorem exit_is_not_observed:
  "on_event (ServerExit code) w = w \<and>
   (waitForEndpoint es = Pending \<longleftrightarrow> (\<forall>e\<in>set es. \<not> matches_marker e \<and> \<not> port_conflict e))"
  by (simp add: waitForEndpoint_def from_pending_iff watcher_init_def)

text \<open>
  C6 as stated fails: the server prints a line and exits with code 1, and the future is
  still pending.
\<close>

theorem exit_counterexample:
  "waitForEndpoint [Stdout ''starting'', ServerExit 1] = Pending"
  by (simp add: waitForEndpoint_def waitForEndpoint_from_def watcher_init_def toString_ascii_def clear_high_bit_def match_here_def marker_def lineTerminator_def)

text \<open>
  C7. If a stderr chunk containing \<open>EADDRINUSE\<close> arrives before any stdout chunk that
  matches the readiness marker, the future is rejected with a chunk that contains
  \<open>EADDRINUSE\<close>, whatever follows; and a future that has settled keeps its outcome under
  every later stream content.
\<close>

theorem readiness_race:
  "((\<forall>x\<in>set pre. \<not> matches_marker x) \<and> has_substring ''EADDRINUSE'' d
      \<longrightarrow> (\<exists>e. waitForEndpoint (pre @ Stderr d # post) = Rejected e \<and> has_substring ''EADDRINUSE'' e))
   \<and> (future w \<noteq> Pending \<longrightarrow> future (waitForEndpoint_from w es) = future w)"
proof (intro conjI impI)
  assume h: "(\<forall>x\<in>set pre. \<not> matches_marker x) \<and> has_substring ''EADDRINUSE'' d"
  let ?w = "waitForEndpoint_from watcher_init pre"
  from h no_marker_not_fulfilled [of pre watcher_init]
  consider "future ?w = Pending"
    | e where "has_substring ''EADDRINUSE'' e" "future ?w = Rejected e"
    by (auto simp add: watcher_init_def)
  then show "\<exists>e. waitForEndpoint (pre @ Stderr d # post) = Rejected e \<and> has_substring ''EADDRINUSE'' e"
  proof cases
    case 1
    with h have "future (on_event (Stderr d) ?w) = Rejected d"
      by (simp add: Let_def reject_def)
    then have "waitForEndpoint (pre @ Stderr d # post) = Rejected d"
      by (simp add: waitForEndpoint_def from_append from_Cons from_settled)
    with h show ?thesis by blast
  next
    case 2
    then have "waitForEndpoint (pre @ Stderr d # post) = Rejected e"
      by (simp add: waitForEndpoint_def from_append from_settled)
    with 2 show ?thesis by blast
  qed
next
  assume "future w \<noteq> Pending"
  then show "future (waitForEndpoint_from w es) = future w" by (rule from_settled)
qed

lemma scenario_match: "match_endpoint (toString_ascii ''Web UI available at http://localhost:9001'') = Some ''http://localhost:9001''"
  by (simp add: waitForEndpoint_def waitForEndpoint_from_def watcher_init_def toString_ascii_def clear_high_bit_def match_here_def marker_def lineTerminator_def)

subsection \<open>The pattern\<close>

lemma takeWhile_run:
  assumes "\<forall>c\<in>set g. P c" "rest = [] \<or> \<not> P (hd rest)"
  shows "takeWhile P (g @ rest) = g"
proof -
  have "takeWhile P rest = []" using assms(2) by (cases rest) auto
  with assms(1) show ?thesis by (simp add: takeWhile_append2)
qed

lemma match_here_Some:
  "match_here t = Some g \<longleftrightarrow>
     (\<exists>rest. t = marker @ g @ rest \<and> g \<noteq> [] \<and> (\<forall>c\<in>set g. \<not> lineTerminator c)
        \<and> (rest = [] \<or> lineTerminator (hd rest)))"
proof
  assume m: "match_here t = Some g"
  let ?d = "drop (length marker) t"
  let ?P = "\<lambda>c. \<not> lineTerminator c"
  from m have tk: "take (length marker) t = marker" and g: "g = takeWhile ?P ?d" and ne: "g \<noteq> []"
    by (auto simp add: match_here_def Let_def split: if_splits)
  have "t = take (length marker) t @ ?d" by simp
  with tk have t: "t = marker @ ?d" by simp
  have d: "?d = g @ dropWhile ?P ?d" by (simp add: g)
  have all: "\<forall>c\<in>set g. \<not> lineTerminator c"
    unfolding g by (auto dest: set_takeWhileD)
  have r: "dropWhile ?P ?d = [] \<or> lineTerminator (hd (dropWhile ?P ?d))"
    using hd_dropWhile [of ?P ?d] by auto
  from t d have "t = marker @ g @ dropWhile ?P ?d" by simp
  with ne all r show "\<exists>rest. t = marker @ g @ rest \<and> g \<noteq> [] \<and> (\<forall>c\<in>set g. \<not> lineTerminator c)
        \<and> (rest = [] \<or> lineTerminator (hd rest))" by blast
next
  assume "\<exists>rest. t = marker @ g @ rest \<and> g \<noteq> [] \<and> (\<forall>c\<in>set g. \<not> lineTerminator c)
        \<and> (rest = [] \<or> lineTerminator (hd rest))"
  then obtain rest where t: "t = marker @ g @ rest" and ne: "g \<noteq> []"
    and all: "\<forall>c\<in>set g. \<not> lineTerminator c" and r: "rest = [] \<or> lineTerminator (hd rest)"
    by blast
  have "takeWhile (\<lambda>c. \<not> lineTerminator c) (g @ rest) = g"
    using all r by (intro takeWhile_run) auto
  with t ne show "match_here t = Some g"
    by (simp add: match_here_def Let_def)
qed

lemma match_here_None:
  "match_here t = None \<longleftrightarrow> \<not> (\<exists>c u. t = marker @ c # u \<and> \<not> lineTerminator c)"
proof
  assume n: "match_here t = None"
  show "\<not> (\<exists>c u. t = marker @ c # u \<and> \<not> lineTerminator c)"
  proof
    assume "\<exists>c u. t = marker @ c # u \<and> \<not> lineTerminator c"
    then obtain c u where "t = marker @ c # u" "\<not> lineTerminator c" by blast
    then have "match_here t \<noteq> None" by (simp add: match_here_def Let_def)
    with n show False by simp
  qed
next
  assume a: "\<not> (\<exists>c u. t = marker @ c # u \<and> \<not> lineTerminator c)"
  show "match_here t = None"
  proof (rule ccontr)
    assume "match_here t \<noteq> None"
    then obtain g where "match_here t = Some g" by auto
    then obtain rest where t: "t = marker @ g @ rest" and ne: "g \<noteq> []"
      and all: "\<forall>c\<in>set g. \<not> lineTerminator c"
      using match_here_Some [of t g] by blast
    from ne obtain c g' where g: "g = c # g'" by (cases g) auto
    with t all have "t = marker @ c # (g' @ rest)" "\<not> lineTerminator c" by simp_all
    with a show False by blast
  qed
qed

lemma match_endpoint_Some:
  "match_endpoint s = Some g \<longleftrightarrow>
     (\<exists>pre t. s = pre @ t \<and> match_here t = Some g
        \<and> (\<forall>i<length pre. match_here (drop i s) = None))"
proof (induction s)
  case Nil
  show ?case by (simp add: match_here_def marker_def)
next
  case (Cons c cs)
  show ?case
  proof (cases "match_here (c # cs)")
    case (Some g')
    have "(\<exists>pre t. c # cs = pre @ t \<and> match_here t = Some g
        \<and> (\<forall>i<length pre. match_here (drop i (c # cs)) = None)) \<longleftrightarrow> g' = g"
    proof
      assume "\<exists>pre t. c # cs = pre @ t \<and> match_here t = Some g
        \<and> (\<forall>i<length pre. match_here (drop i (c # cs)) = None)"
      then obtain pre t where s: "c # cs = pre @ t" and m: "match_here t = Some g"
        and l: "\<forall>i<length pre. match_here (drop i (c # cs)) = None" by blast
      have "pre = []"
      proof (rule ccontr)
        assume "pre \<noteq> []"
        then have "0 < length pre" by simp
        with l have "match_here (drop 0 (c # cs)) = None" by blast
        with Some show False by simp
      qed
      with s m Some show "g' = g" by simp
    next
      assume "g' = g"
      with Some have "c # cs = [] @ (c # cs) \<and> match_here (c # cs) = Some g
        \<and> (\<forall>i<length ([]::string). match_here (drop i (c # cs)) = None)" by simp
      then show "\<exists>pre t. c # cs = pre @ t \<and> match_here t = Some g
        \<and> (\<forall>i<length pre. match_here (drop i (c # cs)) = None)" by blast
    qed
    with Some show ?thesis by simp
  next
    case None
    have "(\<exists>pre t. c # cs = pre @ t \<and> match_here t = Some g
        \<and> (\<forall>i<length pre. match_here (drop i (c # cs)) = None)) \<longleftrightarrow>
          (\<exists>pre t. cs = pre @ t \<and> match_here t = Some g
        \<and> (\<forall>i<length pre. match_here (drop i cs) = None))"
    proof
      assume "\<exists>pre t. c # cs = pre @ t \<and> match_here t = Some g
        \<and> (\<forall>i<length pre. match_here (drop i (c # cs)) = None)"
      then obtain pre t where s: "c # cs = pre @ t" and m: "match_here t = Some g"
        and l: "\<forall>i<length pre. match_here (drop i (c # cs)) = None" by blast
      from s m None have "pre \<noteq> []" by auto
      with s obtain pre' where p: "pre = c # pre'" and cs: "cs = pre' @ t"
        by (cases pre) auto
      have "\<forall>i<length pre'. match_here (drop i cs) = None"
      proof (intro allI impI)
        fix i assume "i < length pre'"
        with p have "Suc i < length pre" by simp
        with l have "match_here (drop (Suc i) (c # cs)) = None" by blast
        then show "match_here (drop i cs) = None" by simp
      qed
      with cs m show "\<exists>pre t. cs = pre @ t \<and> match_here t = Some g
        \<and> (\<forall>i<length pre. match_here (drop i cs) = None)" by blast
    next
      assume "\<exists>pre t. cs = pre @ t \<and> match_here t = Some g
        \<and> (\<forall>i<length pre. match_here (drop i cs) = None)"
      then obtain pre t where s: "cs = pre @ t" and m: "match_here t = Some g"
        and l: "\<forall>i<length pre. match_here (drop i cs) = None" by blast
      have "\<forall>i<length (c # pre). match_here (drop i (c # cs)) = None"
      proof (intro allI impI)
        fix i assume i: "i < length (c # pre)"
        show "match_here (drop i (c # cs)) = None"
        proof (cases i)
          case 0
          with None show ?thesis by simp
        next
          case (Suc j)
          with i l show ?thesis by simp
        qed
      qed
      moreover from s have "c # cs = (c # pre) @ t" by simp
      ultimately show "\<exists>pre t. c # cs = pre @ t \<and> match_here t = Some g
        \<and> (\<forall>i<length pre. match_here (drop i (c # cs)) = None)" using m by blast
    qed
    with None Cons.IH show ?thesis by simp
  qed
qed

lemma match_endpoint_group:
  "match_endpoint s = Some g \<longleftrightarrow> first_capturing_group s g"
proof -
  have "match_endpoint s = Some g \<longleftrightarrow>
     (\<exists>pre rest. s = pre @ marker @ g @ rest \<and> g \<noteq> [] \<and> (\<forall>c\<in>set g. \<not> lineTerminator c)
        \<and> (rest = [] \<or> lineTerminator (hd rest))
        \<and> (\<forall>i<length pre. \<not> (\<exists>c u. drop i s = marker @ c # u \<and> \<not> lineTerminator c)))"
    unfolding match_endpoint_Some match_here_Some match_here_None by blast
  then show ?thesis
    by (simp add: first_capturing_group_def marker_def lineTerminator_def)
qed

lemma match_endpoint_None:
  "match_endpoint s = None \<longleftrightarrow> \<not> (\<exists>g. first_capturing_group s g)"
  using match_endpoint_group [of s] by (cases "match_endpoint s") auto

lemma clear_high_bit_mod: "of_char (clear_high_bit c) = (of_char c :: nat) mod 128"
  by (cases c) (simp add: clear_high_bit_def)

lemma toString_ascii_mod:
  "map of_char (toString_ascii data) = map (\<lambda>c. (of_char c :: nat) mod 128) data"
  by (simp add: toString_ascii_def clear_high_bit_mod)

lemma has_substring_iff: "has_substring sub s \<longleftrightarrow> (\<exists>pre post. s = pre @ sub @ post)"
proof (induction s)
  case Nil
  show ?case by auto
next
  case (Cons c cs)
  have a: "take (length sub) (c # cs) = sub \<longleftrightarrow> (\<exists>post. c # cs = sub @ post)"
  proof
    assume "take (length sub) (c # cs) = sub"
    then have "c # cs = sub @ drop (length sub) (c # cs)"
      using append_take_drop_id [of "length sub" "c # cs"] by simp
    then show "\<exists>post. c # cs = sub @ post" by blast
  next
    assume "\<exists>post. c # cs = sub @ post"
    then show "take (length sub) (c # cs) = sub" by auto
  qed
  have b: "(\<exists>pre post. c # cs = pre @ sub @ post) \<longleftrightarrow>
           (\<exists>post. c # cs = sub @ post) \<or> (\<exists>pre post. cs = pre @ sub @ post)"
  proof
    assume "\<exists>pre post. c # cs = pre @ sub @ post"
    then obtain pre post where e: "c # cs = pre @ sub @ post" by blast
    show "(\<exists>post. c # cs = sub @ post) \<or> (\<exists>pre post. cs = pre @ sub @ post)"
    proof (cases pre)
      case Nil
      with e show ?thesis by auto
    next
      case (Cons x pre')
      with e have "cs = pre' @ sub @ post" by simp
      then show ?thesis by blast
    qed
  next
    assume "(\<exists>post. c # cs = sub @ post) \<or> (\<exists>pre post. cs = pre @ sub @ post)"
    then show "\<exists>pre post. c # cs = pre @ sub @ post"
    proof
      assume "\<exists>post. c # cs = sub @ post"
      then obtain post where "c # cs = [] @ sub @ post" by auto
      then show ?thesis by blast
    next
      assume "\<exists>pre post. cs = pre @ sub @ post"
      then obtain pre post where "c # cs = (c # pre) @ sub @ post" by auto
      then show ?thesis by blast
    qed
  qed
  from a b Cons.IH show ?case by simp
qed

lemma matches_marker_iff:
  "matches_marker e \<longleftrightarrow> (\<exists>d g. e = Stdout d \<and> first_capturing_group (toString_ascii d) g)"
  by (cases e) (auto simp add: match_endpoint_group)

lemma port_conflict_iff:
  "port_conflict e \<longleftrightarrow> (\<exists>d a b. e = Stderr d \<and> d = a @ ''EADDRINUSE'' @ b)"
  by (cases e) (simp_all add: has_substring_iff)

subsection \<open>The first match\<close>

text \<open>
  C8 (as amended). \<open>match_endpoint\<close> finds exactly the first capturing group of the pattern
  \<open>Web UI available at (.+)\<close> as the spec words it, in the chunk decoded as 7-bit text
  (every byte taken modulo 128); a stdout event matches when its chunk has such a group,
  and a stderr event announces a port conflict when its chunk contains \<open>EADDRINUSE\<close>. A
  stdout chunk with first capturing group \<open>g\<close> makes the watcher call \<open>resolve\<close> with \<open>g\<close>
  and remember that the endpoint was found. If no earlier chunk matched and no earlier
  chunk announced a port conflict, that first matching chunk resolves the future with
  \<open>g\<close>, whatever follows. The chunk \<open>Web UI available at http://localhost:9001\<close> alone
  resolves the future with \<open>http://localhost:9001\<close>.
\<close>

theorem first_match_resolves:
  "(match_endpoint s = Some g \<longleftrightarrow> first_capturing_group s g)
   \<and> map of_char (toString_ascii data) = map (\<lambda>c. (of_char c :: nat) mod 128) data
   \<and> (matches_marker e \<longleftrightarrow> (\<exists>d g. e = Stdout d \<and> first_capturing_group (toString_ascii d) g))
   \<and> (port_conflict e \<longleftrightarrow> (\<exists>d a b. e = Stderr d \<and> d = a @ ''EADDRINUSE'' @ b))
   \<and> (first_capturing_group (toString_ascii data) g \<longrightarrow>
        future (on_event (Stdout data) w) = resolve g (future w)
        \<and> endpointFound (on_event (Stdout data) w))
   \<and> ((\<forall>x\<in>set pre. \<not> matches_marker x \<and> \<not> port_conflict x)
        \<and> first_capturing_group (toString_ascii data) g
      \<longrightarrow> waitForEndpoint (pre @ Stdout data # post) = Fulfilled g)
   \<and> waitForEndpoint [Stdout ''Web UI available at http://localhost:9001'']
       = Fulfilled ''http://localhost:9001''"
proof (intro conjI impI)
  show "match_endpoint s = Some g \<longleftrightarrow> first_capturing_group s g"
    by (rule match_endpoint_group)
  show "map of_char (toString_ascii data) = map (\<lambda>c. (of_char c :: nat) mod 128) data"
    by (rule toString_ascii_mod)
  show "matches_marker e \<longleftrightarrow> (\<exists>d g. e = Stdout d \<and> first_capturing_group (toString_ascii d) g)"
    by (rule matches_marker_iff)
  show "port_conflict e \<longleftrightarrow> (\<exists>d a b. e = Stderr d \<and> d = a @ ''EADDRINUSE'' @ b)"
    by (rule port_conflict_iff)
next
  assume "first_capturing_group (toString_ascii data) g"
  then have "match_endpoint (toString_ascii data) = Some g" by (simp add: match_endpoint_group)
  then show "future (on_event (Stdout data) w) = resolve g (future w)"
    and "endpointFound (on_event (Stdout data) w)"
    by (simp_all add: Let_def)
next
  assume h: "(\<forall>x\<in>set pre. \<not> matches_marker x \<and> \<not> port_conflict x)
        \<and> first_capturing_group (toString_ascii data) g"
  then have m: "match_endpoint (toString_ascii data) = Some g" by (simp add: match_endpoint_group)
  let ?w = "waitForEndpoint_from watcher_init pre"
  from h have "future ?w = Pending"
    using from_pending_iff [of watcher_init pre] by (simp add: watcher_init_def)
  with m have "future (on_event (Stdout data) ?w) = Fulfilled g"
    by (simp add: Let_def resolve_def)
  then show "waitForEndpoint (pre @ Stdout data # post) = Fulfilled g"
    by (simp add: waitForEndpoint_def from_append from_Cons from_settled)
next
  show "waitForEndpoint [Stdout ''Web UI available at http://localhost:9001'']
       = Fulfilled ''http://localhost:9001''"
    by (simp add: waitForEndpoint_def waitForEndpoint_from_def watcher_init_def scenario_match resolve_def)
qed

text \<open>
  C8 as stated fails: a port conflict arrives first, then a chunk that matches the pattern;
  that chunk does not resolve the future, which stays rejected.
\<close>

theorem conflict_before_marker_counterexample:
  "match_endpoint (toString_ascii ''Web UI available at http://localhost:9001'')
     = Some ''http://localhost:9001''
   \<and> waitForEndpoint [Stderr ''listen EADDRINUSE: address already in use :::9001'',
                       Stdout ''Web UI available at http://localhost:9001'']
     = Rejected ''listen EADDRINUSE: address already in use :::9001''"
  by (simp add: waitForEndpoint_def waitForEndpoint_from_def watcher_init_def scenario_match
        resolve_def reject_def)

text \<open>The server exits at once and then writes a warning: the future is pending.\<close>

theorem exit_is_not_observed_witness:
  "\<not> matches_marker (ServerExit 0) \<and> \<not> port_conflict (ServerExit 0)
   \<and> \<not> matches_marker (Stderr ''warning'') \<and> \<not> port_conflict (Stderr ''warning'')
   \<and> waitForEndpoint [ServerExit 0, Stderr ''warning''] = Pending"
proof -
  have h: "\<forall>e\<in>set [ServerExit 0, Stderr ''warning'']. \<not> matches_marker e \<and> \<not> port_conflict e"
    by simp
  with exit_is_not_observed [of 0 watcher_init "[ServerExit 0, Stderr ''warning'']"]
  have "waitForEndpoint [ServerExit 0, Stderr ''warning''] = Pending" by blast
  with h show ?thesis by simp
qed

text \<open>A port conflict, then the readiness marker: the future is rejected.\<close>

theorem readiness_race_witness:
  "\<not> matches_marker (Stdout ''booting'')
   \<and> has_substring ''EADDRINUSE'' ''listen EADDRINUSE :::9001''
   \<and> (\<exists>e. waitForEndpoint ([Stdout ''booting''] @ Stderr ''listen EADDRINUSE :::9001''
               # [Stdout ''Web UI available at http://localhost:9001'']) = Rejected e)"
proof -
  have h: "(\<forall>x\<in>set [Stdout ''booting'']. \<not> matches_marker x)
           \<and> has_substring ''EADDRINUSE'' ''listen EADDRINUSE :::9001''"
    by (simp add: toString_ascii_def clear_high_bit_def match_here_def marker_def)
  with readiness_race [of "[Stdout ''booting'']" "''listen EADDRINUSE :::9001''"
         "[Stdout ''Web UI available at http://localhost:9001'']" watcher_init "[]"]
  have "\<exists>e. waitForEndpoint ([Stdout ''booting''] @ Stderr ''listen EADDRINUSE :::9001''
               # [Stdout ''Web UI available at http://localhost:9001'']) = Rejected e"
    by blast
  with h show ?thesis by simp
qed

text \<open>
  A warning, a line with a prefix before the readiness marker, then a port conflict: the
  future is resolved with the endpoint.
\<close>

theorem first_match_resolves_witness:
  "\<not> matches_marker (Stderr ''warning'') \<and> \<not> port_conflict (Stderr ''warning'')
   \<and> first_capturing_group
        (toString_ascii ''[main] Web UI available at http://127.0.0.1:9000/?tkn=1'')
        ''http://127.0.0.1:9000/?tkn=1''
   \<and> waitForEndpoint ([Stderr ''warning'']
        @ Stdout ''[main] Web UI available at http://127.0.0.1:9000/?tkn=1''
        # [Stderr ''EADDRINUSE'']) = Fulfilled ''http://127.0.0.1:9000/?tkn=1''"
proof -
  have m: "match_endpoint (toString_ascii ''[main] Web UI available at http://127.0.0.1:9000/?tkn=1'')
             = Some ''http://127.0.0.1:9000/?tkn=1''"
    by (simp add: toString_ascii_def clear_high_bit_def match_here_def marker_def lineTerminator_def)
  from first_match_resolves
         [where s = "toString_ascii ''[main] Web UI available at http://127.0.0.1:9000/?tkn=1''"
            and g = "''http://127.0.0.1:9000/?tkn=1''"] m
  have g: "first_capturing_group
        (toString_ascii ''[main] Web UI available at http://127.0.0.1:9000/?tkn=1'')
        ''http://127.0.0.1:9000/?tkn=1''" by blast
  have e: "\<forall>x\<in>set [Stderr ''warning'']. \<not> matches_marker x \<and> \<not> port_conflict x" by simp
  from first_match_resolves [where pre = "[Stderr ''warning'']"
         and data = "''[main] Web UI available at http://127.0.0.1:9000/?tkn=1''"
         and g = "''http://127.0.0.1:9000/?tkn=1''" and post = "[Stderr ''EADDRINUSE'']"] g e
  have "waitForEndpoint ([Stderr ''warning'']
        @ Stdout ''[main] Web UI available at http://127.0.0.1:9000/?tkn=1''
        # [Stderr ''EADDRINUSE'']) = Fulfilled ''http://127.0.0.1:9000/?tkn=1''"
    by blast
  with g e show ?thesis by simp
qed

section \<open>Properties of \<open>teardown\<close>\<close>

lemma loop_kill_ok:
  "r < 3 \<Longrightarrow> treeKill env (Suc r) = None \<Longrightarrow>
   teardown_loop env p r eff = (Inr (), eff @ [TreeKill p])"
  by (subst teardown_loop.simps) (simp add: promisify_kill_def)

lemma loop_gone:
  "r < 3 \<Longrightarrow> treeKill env (Suc r) = Some e \<Longrightarrow> probeThrows env (Suc r) \<Longrightarrow>
   teardown_loop env p r eff = (Inr (), eff @ [TreeKill p, Probe p])"
  by (subst teardown_loop.simps) (simp add: promisify_kill_def process_kill0_def)

lemma loop_retry:
  "r < 3 \<Longrightarrow> treeKill env (Suc r) = Some e \<Longrightarrow> \<not> probeThrows env (Suc r) \<Longrightarrow>
   teardown_loop env p r eff = teardown_loop env p (Suc r) (eff @ failed_attempt p (Suc r) e)"
  by (subst teardown_loop.simps) (simp add: promisify_kill_def process_kill0_def failed_attempt_def)

lemma loop_gave_up:
  "\<not> r < 3 \<Longrightarrow> teardown_loop env p r eff = (Inr (), eff @ [LogGaveUp r])"
  by (subst teardown_loop.simps) simp

lemma attempts_append [simp]: "attempts (xs @ ys) = attempts xs + attempts ys"
  by (simp add: attempts_def)

lemma attempts_simps [simp]:
  "attempts [] = 0" "attempts (TreeKill p # xs) = Suc (attempts xs)"
  "attempts (Probe p # xs) = attempts xs" "attempts (LogGaveUp n # xs) = attempts xs"
  "attempts (LogAttemptFailed p n e # xs) = attempts xs"
  by (simp_all add: attempts_def)

lemma loop_total:
  "fst (teardown_loop env p r eff) = Inr () \<and>
   attempts (snd (teardown_loop env p r eff)) \<le> attempts eff + (3 - r)"
proof (induction env p r eff rule: teardown_loop.induct)
  case (1 env p r eff)
  show ?case
  proof (cases "r < 3")
    case False
    then show ?thesis by (simp add: loop_gave_up)
  next
    case lt: True
    show ?thesis
    proof (cases "treeKill env (Suc r)")
      case None
      with lt show ?thesis by (simp add: loop_kill_ok)
    next
      case (Some e)
      show ?thesis
      proof (cases "probeThrows env (Suc r)")
        case True
        with lt Some show ?thesis by (simp add: loop_gone)
      next
        case False
        from lt Some False
        have ih: "fst (teardown_loop env p (Suc r) (eff @ failed_attempt p (Suc r) e)) = Inr () \<and>
                  attempts (snd (teardown_loop env p (Suc r) (eff @ failed_attempt p (Suc r) e)))
                    \<le> attempts (eff @ failed_attempt p (Suc r) e) + (3 - Suc r)"
          using "1.IH" [of "Suc r" e "()"]
          by (simp add: promisify_kill_def process_kill0_def failed_attempt_def)
        with lt Some False show ?thesis
          by (simp add: loop_retry failed_attempt_def) arith
      qed
    qed
  qed
qed

lemma loop_stops:
  "r + n \<le> 3 \<Longrightarrow> 0 < n \<Longrightarrow> \<forall>k. r < k \<and> k < r + n \<longrightarrow> alive_after_failure env k \<Longrightarrow>
   (treeKill env (r + n) = None \<longrightarrow>
      attempts (snd (teardown_loop env p r eff)) = attempts eff + n \<and>
      last (snd (teardown_loop env p r eff)) = TreeKill p) \<and>
   (treeKill env (r + n) \<noteq> None \<and> probeThrows env (r + n) \<longrightarrow>
      attempts (snd (teardown_loop env p r eff)) = attempts eff + n \<and>
      last (snd (teardown_loop env p r eff)) = Probe p) \<and>
   (r + n = 3 \<and> alive_after_failure env (r + n) \<longrightarrow>
      attempts (snd (teardown_loop env p r eff)) = attempts eff + n \<and>
      last (snd (teardown_loop env p r eff)) = LogGaveUp 3)"
proof (induction n arbitrary: r eff)
  case 0
  then show ?case by simp
next
  case (Suc n)
  show ?case
  proof (cases "n = 0")
    case True
    with Suc.prems have r: "r < 3" by simp
    show ?thesis
    proof (cases "treeKill env (Suc r)")
      case None
      with r True show ?thesis by (simp add: loop_kill_ok alive_after_failure_def)
    next
      case (Some e)
      show ?thesis
      proof (cases "probeThrows env (Suc r)")
        case True
        with r Some \<open>n = 0\<close> show ?thesis by (simp add: loop_gone alive_after_failure_def)
      next
        case False
        with r Some \<open>n = 0\<close> show ?thesis
          by (auto simp add: loop_retry loop_gave_up failed_attempt_def alive_after_failure_def)
      qed
    qed
  next
    case False
    with Suc.prems have r: "r < 3" and a: "alive_after_failure env (Suc r)" by auto
    from a obtain e where e: "treeKill env (Suc r) = Some e" and np: "\<not> probeThrows env (Suc r)"
      by (auto simp add: alive_after_failure_def)
    have step: "teardown_loop env p r eff = teardown_loop env p (Suc r) (eff @ failed_attempt p (Suc r) e)"
      using r e np by (rule loop_retry)
    have "Suc r + n \<le> 3" "0 < n" "\<forall>k. Suc r < k \<and> k < Suc r + n \<longrightarrow> alive_after_failure env k"
      using Suc.prems False by auto
    from Suc.IH [OF this, of "eff @ failed_attempt p (Suc r) e"]
    show ?thesis by (auto simp add: step failed_attempt_def)
  qed
qed

text \<open>
  C9. \<open>teardown\<close> always settles and never rejects: without a pid it returns at once with
  no effect; it makes at most three tree-kill requests; when attempt \<open>n\<close> is the first
  that either succeeds or is followed by a probe that finds the process gone, it stops
  right there, after \<open>n\<close> requests; and when three attempts fail against a process that
  is alive it logs that it gave up and returns.
\<close>

theorem teardown_settles:
  "teardown env None = (Inr (), [])
   \<and> fst (teardown env pid) = Inr ()
   \<and> attempts (snd (teardown env pid)) \<le> 3
   \<and> (0 < n \<and> n \<le> 3 \<and> (\<forall>k. 0 < k \<and> k < n \<longrightarrow> alive_after_failure env k) \<longrightarrow>
        (treeKill env n = None \<longrightarrow>
           attempts (snd (teardown env (Some p))) = n \<and>
           last (snd (teardown env (Some p))) = TreeKill p) \<and>
        (treeKill env n \<noteq> None \<and> probeThrows env n \<longrightarrow>
           attempts (snd (teardown env (Some p))) = n \<and>
           last (snd (teardown env (Some p))) = Probe p) \<and>
        (n = 3 \<and> alive_after_failure env 3 \<longrightarrow>
           attempts (snd (teardown env (Some p))) = 3 \<and>
           last (snd (teardown env (Some p))) = LogGaveUp 3))"
proof -
  have a: "teardown env None = (Inr (), [])" by (simp add: teardown_def)
  have b: "fst (teardown env pid) = Inr ()"
    by (cases pid) (simp_all add: teardown_def loop_total)
  have c: "attempts (snd (teardown env pid)) \<le> 3"
    using loop_total [of env _ 0 "[]"] by (cases pid) (simp_all add: teardown_def)
  have d: "0 < n \<and> n \<le> 3 \<and> (\<forall>k. 0 < k \<and> k < n \<longrightarrow> alive_after_failure env k) \<longrightarrow>
        (treeKill env n = None \<longrightarrow>
           attempts (snd (teardown env (Some p))) = n \<and>
           last (snd (teardown env (Some p))) = TreeKill p) \<and>
        (treeKill env n \<noteq> None \<and> probeThrows env n \<longrightarrow>
           attempts (snd (teardown env (Some p))) = n \<and>
           last (snd (teardown env (Some p))) = Probe p) \<and>
        (n = 3 \<and> alive_after_failure env 3 \<longrightarrow>
           attempts (snd (teardown env (Some p))) = 3 \<and>
           last (snd (teardown env (Some p))) = LogGaveUp 3)"
  proof
    assume h: "0 < n \<and> n \<le> 3 \<and> (\<forall>k. 0 < k \<and> k < n \<longrightarrow> alive_after_failure env k)"
    then have "0 + n \<le> 3" "0 < n" "\<forall>k. 0 < k \<and> k < 0 + n \<longrightarrow> alive_after_failure env k"
      by simp_all
    from loop_stops [OF this, of p "[]"] h show "(treeKill env n = None \<longrightarrow>
           attempts (snd (teardown env (Some p))) = n \<and>
           last (snd (teardown env (Some p))) = TreeKill p) \<and>
        (treeKill env n \<noteq> None \<and> probeThrows env n \<longrightarrow>
           attempts (snd (teardown env (Some p))) = n \<and>
           last (snd (teardown env (Some p))) = Probe p) \<and>
        (n = 3 \<and> alive_after_failure env 3 \<longrightarrow>
           attempts (snd (teardown env (Some p))) = 3 \<and>
           last (snd (teardown env (Some p))) = LogGaveUp 3)"
      by (auto simp add: teardown_def)
  qed
  from a b c d show ?thesis by blast
qed

text \<open>The first tree-kill fails, the process is alive, the second succeeds.\<close>

theorem teardown_settles_witness:
  "teardown os_second_kill (Some 4711) =
     (Inr (), [TreeKill 4711, Probe 4711, LogAttemptFailed 4711 1 ''EPERM'', TreeKill 4711])
   \<and> attempts (snd (teardown os_second_kill (Some 4711))) = 2
   \<and> last (snd (teardown os_second_kill (Some 4711))) = TreeKill 4711"
proof -
  have h: "0 < (2::nat) \<and> (2::nat) \<le> 3 \<and> (\<forall>k. 0 < k \<and> k < 2 \<longrightarrow> alive_after_failure os_second_kill k)"
    by (auto simp add: alive_after_failure_def os_second_kill_def)
  have k: "treeKill os_second_kill 2 = None" by (simp add: os_second_kill_def)
  have e: "teardown os_second_kill (Some 4711) =
     (Inr (), [TreeKill 4711, Probe 4711, LogAttemptFailed 4711 1 ''EPERM'', TreeKill 4711])"
    by (simp add: teardown_def loop_retry loop_kill_ok failed_attempt_def os_second_kill_def)
  from teardown_settles [of os_second_kill "Some 4711" 2 4711] h k e show ?thesis by simp
qed

section \<open>Properties of the tunnel supervisor\<close>

subsection \<open>The active operation\<close>

lemma emit_simps [simp]:
  "the_account (emit es s) = the_account s"
  "tunnelProcess (emit es s) = tunnelProcess s"
  "operations (emit es s) = operations s"
  "effects (emit es s) = effects s @ es"
  by (simp_all add: emit_def)

lemma update_op_simps [simp]:
  "the_account (update_op i f s) = the_account s"
  "tunnelProcess (update_op i f s) = tunnelProcess s"
  "operations (update_op i f s) = (operations s)[i := f (operations s ! i)]"
  "effects (update_op i f s) = effects s"
  by (simp_all add: update_op_def)

lemma run_simps [simp]:
  "the_account (runCodeTunneCommand cfg ph args c s) = the_account s"
  "tunnelProcess (runCodeTunneCommand cfg ph args c s) = tunnelProcess s"
  "operations (runCodeTunneCommand cfg ph args c s) =
     operations s @ [\<lparr>phase_of = ph, isCancellationRequested = c, child = True,
                       work = (if c then Fulfilled () else Pending), outcome = Pending, proc = Running\<rparr>]"
  "effects (runCodeTunneCommand cfg ph args c s) =
     effects s @ [LogInfo (logLabel ph @ '' Spawning''),
                  Spawn (length (operations s)) (fst (spawn_command cfg args)) (snd (spawn_command cfg args))]"
  by (simp_all add: runCodeTunneCommand_def Let_def resolve_def)

lemma cancel_simps [simp]:
  "the_account (cancel cfg i s) = the_account s"
  "tunnelProcess (cancel cfg i s) = tunnelProcess s"
  "length (operations (cancel cfg i s)) = length (operations s)"
  by (simp_all add: cancel_def Let_def split: on_cancel.splits)

lemma inv_None [simp]: "tunnelProcess s = None \<Longrightarrow> inv s"
  by (simp add: inv_def)

lemma inv_fresh:
  "n = length (operations s) \<Longrightarrow>
   inv ((runCodeTunneCommand cfg ph args False s)\<lparr>tunnelProcess := Some n\<rparr>)"
  by (simp add: inv_def active_ok_def)

lemma serve_finally_inv: "inv s \<Longrightarrow> inv (serve_finally i s)"
  by (simp add: serve_finally_def)

lemma after_login_inv: "inv s \<Longrightarrow> inv (after_login cfg i s)"
  by (auto simp add: after_login_def Let_def inv_fresh split: promise.splits)

lemma continuation_inv: "inv s \<Longrightarrow> inv (continuation cfg i s)"
  by (simp add: continuation_def serve_finally_inv after_login_inv split: phase.splits)

lemma inv_emit [simp]: "inv (emit es s) = inv s"
  by (simp add: inv_def split: option.splits)

lemma updateTunnelProcess_inv: "inv (updateTunnelProcess cfg s)"
  unfolding updateTunnelProcess_def Let_def
  by (auto split: option.splits intro!: continuation_inv inv_fresh)

lemma updateAccount_inv: "inv s \<Longrightarrow> inv (updateAccount cfg a s)"
  by (simp add: updateAccount_def Let_def updateTunnelProcess_inv)

lemma inv_other:
  "inv s \<Longrightarrow> tunnelProcess s \<noteq> Some i \<Longrightarrow> inv (update_op i f s)"
  by (auto simp add: inv_def split: option.splits)

lemma work_settled_inv:
  assumes "inv s" "tunnelProcess s = Some i \<longrightarrow> work (operations s ! i) = Pending" "r \<noteq> Pending"
  shows "inv (work_settled cfg i r s)"
proof (cases "tunnelProcess s = Some i")
  case False
  with assms show ?thesis
    by (simp add: work_settled_def Let_def inv_other continuation_inv)
next
  case True
  with assms have i: "i < length (operations s)" and ok: "active_ok (operations s ! i)"
    by (simp_all add: inv_def)
  let ?s' = "update_op i (\<lambda>x. x\<lparr>outcome := r\<rparr>) (update_op i (\<lambda>x. x\<lparr>work := r\<rparr>) s)"
  have "inv (continuation cfg i ?s')"
  proof (cases "phase_of (operations s ! i)")
    case Login
    with True i assms(3) show ?thesis
      by (cases r) (simp_all add: continuation_def after_login_def Let_def inv_def active_ok_def nth_append)
  next
    case Serve
    with True i show ?thesis
      by (simp add: continuation_def serve_finally_def)
  qed
  with True ok show ?thesis
    by (simp add: work_settled_def Let_def active_ok_def)
qed

lemma on_exit_inv: "inv s \<Longrightarrow> i < length (operations s) \<Longrightarrow> inv (on_exit cfg i e s)"
proof (cases "tunnelProcess s = Some i")
  case False
  assume "inv s" "i < length (operations s)"
  with False show ?thesis
    by (auto simp add: on_exit_def Let_def inv_other intro!: work_settled_inv)
next
  case True
  assume a: "inv s" "i < length (operations s)"
  with True have ok: "active_ok (operations s ! i)" by (simp add: inv_def)
  let ?s1 = "update_op i (\<lambda>x. x\<lparr>child := False\<rparr>)
                   (emit [LogInfo (logLabel (phase_of (operations s ! i)) @ '' exit'')]
                      (update_op i (\<lambda>x. x\<lparr>proc := Exited\<rparr>) s))"
  have "work_settled cfg i (Fulfilled ()) ?s1 =
        continuation cfg i (update_op i (\<lambda>x. x\<lparr>outcome := Fulfilled ()\<rparr>) (update_op i (\<lambda>x. x\<lparr>work := Fulfilled ()\<rparr>) ?s1))"
    using ok a by (simp add: work_settled_def Let_def active_ok_def)
  moreover have "inv (continuation cfg i (update_op i (\<lambda>x. x\<lparr>outcome := Fulfilled ()\<rparr>) (update_op i (\<lambda>x. x\<lparr>work := Fulfilled ()\<rparr>) ?s1)))"
    using True a
    by (cases "phase_of (operations s ! i)")
       (simp_all add: continuation_def after_login_def serve_finally_def Let_def inv_def active_ok_def nth_append)
  ultimately show ?thesis using ok by (simp add: on_exit_def Let_def active_ok_def)
qed

lemma on_error_inv: "inv s \<Longrightarrow> i < length (operations s) \<Longrightarrow> inv (on_error cfg i s)"
proof (cases "tunnelProcess s = Some i")
  case False
  assume "inv s" "i < length (operations s)"
  with False show ?thesis
    by (auto simp add: on_error_def Let_def inv_other intro!: work_settled_inv)
next
  case True
  assume a: "inv s" "i < length (operations s)"
  with True have ok: "active_ok (operations s ! i)" by (simp add: inv_def)
  let ?s1 = "update_op i (\<lambda>x. x\<lparr>child := False\<rparr>)
                   (emit [LogInfo (logLabel (phase_of (operations s ! i)) @ '' error'')] s)"
  have "work_settled cfg i (Rejected NoReason) ?s1 =
        continuation cfg i (update_op i (\<lambda>x. x\<lparr>outcome := Rejected NoReason\<rparr>) (update_op i (\<lambda>x. x\<lparr>work := Rejected NoReason\<rparr>) ?s1))"
    using ok a by (simp add: work_settled_def Let_def active_ok_def)
  moreover have "inv (continuation cfg i (update_op i (\<lambda>x. x\<lparr>outcome := Rejected NoReason\<rparr>) (update_op i (\<lambda>x. x\<lparr>work := Rejected NoReason\<rparr>) ?s1)))"
    using True a
    by (cases "phase_of (operations s ! i)")
       (simp_all add: continuation_def after_login_def serve_finally_def Let_def inv_def active_ok_def nth_append)
  ultimately show ?thesis using ok by (simp add: on_error_def Let_def active_ok_def)
qed

lemma step_inv: "inv s \<Longrightarrow> inv (step cfg e s)"
  by (cases e) (simp_all add: updateAccount_inv on_exit_inv on_error_inv)

lemma foldl_inv: "inv s \<Longrightarrow> inv (foldl (\<lambda>s e. step cfg e s) s es)"
  by (induction es arbitrary: s) (simp_all add: step_inv)

lemma run_inv: "inv (run cfg es)"
  by (simp add: run_def foldl_inv service_init_def)

subsection \<open>Account updates\<close>

lemma account_changed_iff: "account_changed a b \<longleftrightarrow> a \<noteq> b"
  by (cases a; cases b) (auto simp add: account_changed_def)

lemma updateAccount_same:
  "updateAccount cfg (the_account s) s = emit [ConsoleLog ''updateAccount''] s"
  by (simp add: updateAccount_def Let_def account_changed_iff)

lemma after_login_account [simp]: "the_account (after_login cfg i s) = the_account s"
  by (simp add: after_login_def Let_def split: promise.splits)

lemma active_valid: "inv s \<Longrightarrow> tunnelProcess s = Some i \<Longrightarrow> i < length (operations s)"
  by (simp add: inv_def)

lemma active_is_ok: "inv s \<Longrightarrow> tunnelProcess s = Some i \<Longrightarrow> active_ok (operations s ! i)"
  by (simp add: inv_def)

lemma updateTunnelProcess_account:
  "inv s \<Longrightarrow> the_account (updateTunnelProcess cfg s) = the_account s"
  unfolding updateTunnelProcess_def Let_def
  by (auto simp add: continuation_def serve_finally_def dest: active_valid split: option.splits phase.splits)

lemma updateAccount_account:
  "inv s \<Longrightarrow> the_account (updateAccount cfg a s) = a"
  by (auto simp add: updateAccount_def Let_def updateTunnelProcess_account account_changed_iff inv_def
           split: option.splits)

text \<open>
  C5. The test of \<open>updateAccount\<close> finds no change exactly when both accounts are absent or
  both are present with the same provider id and the same token. When it finds none, the
  call does nothing but write the console line: no notification, no cancellation, no
  spawn, the same state. After any call \<open>updateAccount(a)\<close>, in any state the service can
  reach, the stored account is \<open>a\<close>, so a second call with \<open>a\<close> right after it is such a
  no-op.
\<close>

theorem updateAccount_idempotent:
  "\<not> account_changed None None
   \<and> account_changed None (Some y) \<and> account_changed (Some x) None
   \<and> (account_changed (Some x) (Some y) \<longleftrightarrow>
        \<not> (authenticationProviderId x = authenticationProviderId y \<and> token x = token y))
   \<and> (\<not> account_changed a (the_account s) \<longrightarrow>
        updateAccount cfg a s = emit [ConsoleLog ''updateAccount''] s)
   \<and> the_account (updateAccount cfg a (run cfg es)) = a
   \<and> updateAccount cfg a (updateAccount cfg a (run cfg es))
       = emit [ConsoleLog ''updateAccount''] (updateAccount cfg a (run cfg es))"
proof -
  have 1: "the_account (updateAccount cfg a (run cfg es)) = a"
    by (simp add: updateAccount_account run_inv)
  then have 2: "updateAccount cfg a (updateAccount cfg a (run cfg es))
       = emit [ConsoleLog ''updateAccount''] (updateAccount cfg a (run cfg es))"
    using updateAccount_same [of cfg "updateAccount cfg a (run cfg es)"] by simp
  have 3: "\<not> account_changed a (the_account s) \<longrightarrow>
        updateAccount cfg a s = emit [ConsoleLog ''updateAccount''] s"
    by (simp add: updateAccount_def Let_def)
  have 4: "account_changed (Some x) (Some y) \<longleftrightarrow>
        \<not> (authenticationProviderId x = authenticationProviderId y \<and> token x = token y)"
    by (auto simp add: account_changed_def)
  have 5: "\<not> account_changed None None" "account_changed None (Some y)"
    "account_changed (Some x) None"
    by (simp_all add: account_changed_def)
  from 1 2 3 4 5 show ?thesis by blast
qed

subsection \<open>The serve phase\<close>

lemma exit_active_serve:
  assumes "inv s" "tunnelProcess s = Some i" "phase_of (operations s ! i) = Serve"
  shows "tunnelProcess (step cfg (ProcExit i e) s) = None"
    and "the_account (step cfg (ProcExit i e) s) = None"
    and "effects (step cfg (ProcExit i e) s) =
           effects s @ [LogInfo ''tunnel exit'', LogInfo ''tunnel process terminated'',
                        Fire TunnelFailed]"
    and "length (operations (step cfg (ProcExit i e) s)) = length (operations s)"
    and "inv (step cfg (ProcExit i e) s)"
  using assms active_valid [OF assms(1,2)] active_is_ok [OF assms(1,2)]
  by (simp_all add: on_exit_def work_settled_def continuation_def serve_finally_def
        Let_def active_ok_def logLabel_def)

lemma login_after_idle:
  assumes "tunnelProcess s = None" "the_account s = None"
  shows "tunnelProcess (updateAccount cfg (Some x) s) = Some (length (operations s))"
    and "the_account (updateAccount cfg (Some x) s) = Some x"
    and "effects (updateAccount cfg (Some x) s) =
           effects s @ [ConsoleLog ''updateAccount'', Fire (DidChangeAccount (Some x)),
                        LogInfo (''Account updated: '' @ authenticationProviderId x),
                        Telemetry True, LogInfo ''login Spawning'',
                        Spawn (length (operations s))
                          (fst (spawn_command cfg [''tunnel'', ''user'', ''login'', ''--provider'',
                                  authenticationProviderId x, ''--access-token'', token x]))
                          (snd (spawn_command cfg [''tunnel'', ''user'', ''login'', ''--provider'',
                                  authenticationProviderId x, ''--access-token'', token x]))]"
  using assms
  by (simp_all add: updateAccount_def updateTunnelProcess_def account_changed_iff Let_def logLabel_def)

lemma serve_finally_stale: "tunnelProcess s \<noteq> Some i \<Longrightarrow> serve_finally i s = s"
  by (simp add: serve_finally_def)

lemma exit_stale_serve:
  assumes "tunnelProcess s \<noteq> Some i" "phase_of (operations s ! i) = Serve"
  shows "tunnelProcess (step cfg (ProcExit i e) s) = tunnelProcess s"
    and "the_account (step cfg (ProcExit i e) s) = the_account s"
    and "filter is_fire (effects (step cfg (ProcExit i e) s)) = filter is_fire (effects s)"
  using assms
  by (simp_all add: on_exit_def work_settled_def continuation_def serve_finally_def Let_def)

text \<open>
  C2. In a state the service can reach, let the serve operation be the active one and let
  its child exit (with any code). Then the active operation and the stored account are
  cleared and the effects are the exit log line, the line \<open>tunnel process terminated\<close> and
  one tunnel-failed notification; a following \<open>updateAccount\<close> with any account, the old
  one included, is a change and spawns the login command. When the serve operation is
  not the active one, its \<open>finally\<close> handler changes nothing, and the exit of its child
  leaves the active operation and the stored account as they are and fires nothing.
\<close>

theorem serve_exit_reported_once:
  "(tunnelProcess (run cfg es) = Some i \<and> phase_of (operations (run cfg es) ! i) = Serve \<longrightarrow>
      tunnelProcess (step cfg (ProcExit i e) (run cfg es)) = None
      \<and> the_account (step cfg (ProcExit i e) (run cfg es)) = None
      \<and> effects (step cfg (ProcExit i e) (run cfg es)) =
          effects (run cfg es) @ [LogInfo ''tunnel exit'', LogInfo ''tunnel process terminated'',
                                  Fire TunnelFailed]
      \<and> tunnelProcess (updateAccount cfg (Some x) (step cfg (ProcExit i e) (run cfg es)))
          = Some (length (operations (run cfg es)))
      \<and> filter on_child (since (step cfg (ProcExit i e) (run cfg es))
            (updateAccount cfg (Some x) (step cfg (ProcExit i e) (run cfg es))))
          = [Spawn (length (operations (run cfg es)))
               (fst (spawn_command cfg [''tunnel'', ''user'', ''login'', ''--provider'',
                       authenticationProviderId x, ''--access-token'', token x]))
               (snd (spawn_command cfg [''tunnel'', ''user'', ''login'', ''--provider'',
                       authenticationProviderId x, ''--access-token'', token x]))])
   \<and> (tunnelProcess s \<noteq> Some i \<and> phase_of (operations s ! i) = Serve \<longrightarrow>
        serve_finally i s = s
        \<and> tunnelProcess (step cfg (ProcExit i e) s) = tunnelProcess s
        \<and> the_account (step cfg (ProcExit i e) s) = the_account s
        \<and> filter is_fire (effects (step cfg (ProcExit i e) s)) = filter is_fire (effects s))"
proof (intro conjI impI)
  assume h: "tunnelProcess (run cfg es) = Some i \<and> phase_of (operations (run cfg es) ! i) = Serve"
  let ?s = "run cfg es"
  let ?s' = "step cfg (ProcExit i e) ?s"
  have inv: "inv ?s" by (rule run_inv)
  from h have a: "tunnelProcess ?s = Some i" and p: "phase_of (operations ?s ! i) = Serve"
    by simp_all
  note facts = exit_active_serve [OF inv a p, of cfg e]
  show "tunnelProcess ?s' = None" by (rule facts)
  show "the_account ?s' = None" by (rule facts)
  show "effects ?s' = effects ?s @ [LogInfo ''tunnel exit'', LogInfo ''tunnel process terminated'',
                                  Fire TunnelFailed]" by (rule facts)
  note again = login_after_idle [OF facts(1) facts(2), of cfg x]
  show "tunnelProcess (updateAccount cfg (Some x) ?s') = Some (length (operations ?s))"
    using again(1) facts(4) by simp
  show "filter on_child (since ?s' (updateAccount cfg (Some x) ?s'))
          = [Spawn (length (operations ?s))
               (fst (spawn_command cfg [''tunnel'', ''user'', ''login'', ''--provider'',
                       authenticationProviderId x, ''--access-token'', token x]))
               (snd (spawn_command cfg [''tunnel'', ''user'', ''login'', ''--provider'',
                       authenticationProviderId x, ''--access-token'', token x]))]"
    using again(3) facts(4) by (simp add: since_def)
next
  assume h: "tunnelProcess s \<noteq> Some i \<and> phase_of (operations s ! i) = Serve"
  then have a: "tunnelProcess s \<noteq> Some i" and p: "phase_of (operations s ! i) = Serve"
    by simp_all
  from a show "serve_finally i s = s" by (rule serve_finally_stale)
  show "tunnelProcess (step cfg (ProcExit i e) s) = tunnelProcess s"
    by (rule exit_stale_serve [OF a p])
  show "the_account (step cfg (ProcExit i e) s) = the_account s"
    by (rule exit_stale_serve [OF a p])
  show "filter is_fire (effects (step cfg (ProcExit i e) s)) = filter is_fire (effects s)"
    by (rule exit_stale_serve [OF a p])
qed

subsection \<open>The login phase\<close>

lemma exit_active_login:
  assumes "inv s" "tunnelProcess s = Some i" "phase_of (operations s ! i) = Login"
  shows "tunnelProcess (step cfg (ProcExit i e) s) = Some (length (operations s))"
    and "the_account (step cfg (ProcExit i e) s) = the_account s"
    and "outcome (operations (step cfg (ProcExit i e) s) ! i) = Fulfilled ()"
    and "phase_of (operations (step cfg (ProcExit i e) s) ! length (operations s)) = Serve"
    and "effects (step cfg (ProcExit i e) s) =
           effects s @ [LogInfo ''login exit'', LogInfo ''tunnel Spawning'',
                        Spawn (length (operations s)) (fst (spawn_command cfg [''tunnel'']))
                          (snd (spawn_command cfg [''tunnel'']))]"
  using assms active_valid [OF assms(1,2)] active_is_ok [OF assms(1,2)]
  by (simp_all add: on_exit_def work_settled_def continuation_def after_login_def
        Let_def active_ok_def logLabel_def nth_append)

lemma error_active_login:
  assumes "inv s" "tunnelProcess s = Some i" "phase_of (operations s ! i) = Login"
  shows "tunnelProcess (step cfg (ProcError i) s) = None"
    and "the_account (step cfg (ProcError i) s) = the_account s"
    and "outcome (operations (step cfg (ProcError i) s) ! i) = Rejected NoReason"
    and "length (operations (step cfg (ProcError i) s)) = length (operations s)"
    and "effects (step cfg (ProcError i) s) =
           effects s @ [LogInfo ''login error'', LogError, Fire (TokenFailed True)]"
  using assms active_valid [OF assms(1,2)] active_is_ok [OF assms(1,2)]
  by (simp_all add: on_error_def work_settled_def continuation_def after_login_def
        Let_def active_ok_def logLabel_def)

lemma exit_effects:
  "effects (step cfg (ProcExit j e) s) = effects s @ since s (step cfg (ProcExit j e) s)
   \<and> Fire (TokenFailed b) \<notin> set (since s (step cfg (ProcExit j e) s))"
  by (simp add: since_def on_exit_def work_settled_def continuation_def after_login_def
        serve_finally_def Let_def split: phase.splits)

text \<open>
  C3 (as amended). In a state the service can reach, let the login operation be the active
  one. If its child exits, with whatever exit code, the login operation resolves and the
  serve command is spawned and becomes the active operation. If its child emits \<open>error\<close>,
  the login operation is rejected, the active operation is cleared and nothing is
  spawned.
\<close>

theorem login_succeeds_on_any_exit:
  "tunnelProcess (run cfg es) = Some i \<and> phase_of (operations (run cfg es) ! i) = Login \<longrightarrow>
     outcome (operations (step cfg (ProcExit i e) (run cfg es)) ! i) = Fulfilled ()
     \<and> tunnelProcess (step cfg (ProcExit i e) (run cfg es)) = Some (length (operations (run cfg es)))
     \<and> phase_of (operations (step cfg (ProcExit i e) (run cfg es)) ! length (operations (run cfg es)))
         = Serve
     \<and> effects (step cfg (ProcExit i e) (run cfg es)) =
         effects (run cfg es) @ [LogInfo ''login exit'', LogInfo ''tunnel Spawning'',
            Spawn (length (operations (run cfg es))) (fst (spawn_command cfg [''tunnel'']))
              (snd (spawn_command cfg [''tunnel'']))]
     \<and> outcome (operations (step cfg (ProcError i) (run cfg es)) ! i) = Rejected NoReason
     \<and> tunnelProcess (step cfg (ProcError i) (run cfg es)) = None
     \<and> length (operations (step cfg (ProcError i) (run cfg es))) = length (operations (run cfg es))
     \<and> filter on_child (since (run cfg es) (step cfg (ProcError i) (run cfg es))) = []"
proof
  assume h: "tunnelProcess (run cfg es) = Some i \<and> phase_of (operations (run cfg es) ! i) = Login"
  have inv: "inv (run cfg es)" by (rule run_inv)
  from h have a: "tunnelProcess (run cfg es) = Some i"
    and p: "phase_of (operations (run cfg es) ! i) = Login" by simp_all
  note ex = exit_active_login [OF inv a p, of cfg e]
  note er = error_active_login [OF inv a p, of cfg]
  have "filter on_child (since (run cfg es) (step cfg (ProcError i) (run cfg es))) = []"
    using er(5) by (simp add: since_def)
  with ex er show "outcome (operations (step cfg (ProcExit i e) (run cfg es)) ! i) = Fulfilled ()
     \<and> tunnelProcess (step cfg (ProcExit i e) (run cfg es)) = Some (length (operations (run cfg es)))
     \<and> phase_of (operations (step cfg (ProcExit i e) (run cfg es)) ! length (operations (run cfg es)))
         = Serve
     \<and> effects (step cfg (ProcExit i e) (run cfg es)) =
         effects (run cfg es) @ [LogInfo ''login exit'', LogInfo ''tunnel Spawning'',
            Spawn (length (operations (run cfg es))) (fst (spawn_command cfg [''tunnel'']))
              (snd (spawn_command cfg [''tunnel'']))]
     \<and> outcome (operations (step cfg (ProcError i) (run cfg es)) ! i) = Rejected NoReason
     \<and> tunnelProcess (step cfg (ProcError i) (run cfg es)) = None
     \<and> length (operations (step cfg (ProcError i) (run cfg es))) = length (operations (run cfg es))
     \<and> filter on_child (since (run cfg es) (step cfg (ProcError i) (run cfg es))) = []"
    by blast
qed

text \<open>
  C4 (as amended). In a state the service can reach, let the login operation be the active
  one. If its child emits \<open>error\<close>, the active operation is cleared, the stored account is
  kept, and the effects are the error log lines and one token-failed notification; a
  call of \<open>updateAccount\<close> with the stored account is then still a no-op. If its child
  exits, with whatever code, no notification is fired. No exit of any child, in any
  state, fires token-failed.
\<close>

theorem token_failed_on_login_error:
  "(tunnelProcess (run cfg es) = Some i \<and> phase_of (operations (run cfg es) ! i) = Login \<longrightarrow>
      tunnelProcess (step cfg (ProcError i) (run cfg es)) = None
      \<and> the_account (step cfg (ProcError i) (run cfg es)) = the_account (run cfg es)
      \<and> effects (step cfg (ProcError i) (run cfg es)) =
          effects (run cfg es) @ [LogInfo ''login error'', LogError, Fire (TokenFailed True)]
      \<and> updateAccount cfg (the_account (run cfg es)) (step cfg (ProcError i) (run cfg es))
          = emit [ConsoleLog ''updateAccount''] (step cfg (ProcError i) (run cfg es))
      \<and> the_account (step cfg (ProcExit i e) (run cfg es)) = the_account (run cfg es)
      \<and> filter is_fire (since (run cfg es) (step cfg (ProcExit i e) (run cfg es))) = [])
   \<and> effects (step cfg (ProcExit j e) s) = effects s @ since s (step cfg (ProcExit j e) s)
   \<and> Fire (TokenFailed b) \<notin> set (since s (step cfg (ProcExit j e) s))"
proof (intro conjI impI)
  assume h: "tunnelProcess (run cfg es) = Some i \<and> phase_of (operations (run cfg es) ! i) = Login"
  have inv: "inv (run cfg es)" by (rule run_inv)
  from h have a: "tunnelProcess (run cfg es) = Some i"
    and p: "phase_of (operations (run cfg es) ! i) = Login" by simp_all
  note ex = exit_active_login [OF inv a p, of cfg e]
  note er = error_active_login [OF inv a p, of cfg]
  show "tunnelProcess (step cfg (ProcError i) (run cfg es)) = None" by (rule er)
  show "the_account (step cfg (ProcError i) (run cfg es)) = the_account (run cfg es)" by (rule er)
  show "effects (step cfg (ProcError i) (run cfg es)) =
          effects (run cfg es) @ [LogInfo ''login error'', LogError, Fire (TokenFailed True)]"
    by (rule er)
  show "updateAccount cfg (the_account (run cfg es)) (step cfg (ProcError i) (run cfg es))
          = emit [ConsoleLog ''updateAccount''] (step cfg (ProcError i) (run cfg es))"
    using updateAccount_same [of cfg "step cfg (ProcError i) (run cfg es)"] er(2) by simp
  show "the_account (step cfg (ProcExit i e) (run cfg es)) = the_account (run cfg es)" by (rule ex)
  show "filter is_fire (since (run cfg es) (step cfg (ProcExit i e) (run cfg es))) = []"
    using ex(5) by (simp add: since_def)
next
  show "effects (step cfg (ProcExit j e) s) = effects s @ since s (step cfg (ProcExit j e) s)"
    using exit_effects [of cfg j e s] by blast
  show "Fire (TokenFailed b) \<notin> set (since s (step cfg (ProcExit j e) s))"
    using exit_effects [of cfg j e s b] by blast
qed

subsection \<open>Concrete runs\<close>

lemmas model_defs =
  run_def service_init_def updateAccount_def updateTunnelProcess_def account_changed_def
  runCodeTunneCommand_def cancel_def continuation_def after_login_def serve_finally_def
  work_settled_def on_exit_def on_error_def emit_def update_op_def spawn_command_def
  logLabel_def signal_def resolve_def reject_def Let_def cfg_of_def github_t1_def github_t2_def

lemma two_logins:
  "operations (run (cfg_of c) [UpdateAccount (Some github_t1), UpdateAccount (Some github_t2)]) =
     [\<lparr>phase_of = Login, isCancellationRequested = True, child = True, work = Pending,
       outcome = (case c of RejectsOnCancel \<Rightarrow> Rejected Canceled
                  | ResolvesOnCancel \<Rightarrow> Fulfilled () | SettlesWithWork \<Rightarrow> Pending),
       proc = Signaled\<rparr>,
      \<lparr>phase_of = Login, isCancellationRequested = False, child = True, work = Pending,
       outcome = Pending, proc = Running\<rparr>]"
  by (cases c) (simp_all add: model_defs)

text \<open>
  C1 as stated fails: after two calls of \<open>updateAccount\<close> with different accounts the
  first login child has been signalled but has not exited, and the second is running.
\<close>

theorem two_children_counterexample:
  "live (run (cfg_of RejectsOnCancel) [UpdateAccount (Some github_t1), UpdateAccount (Some github_t2)]) = 2
   \<and> live (run (cfg_of ResolvesOnCancel) [UpdateAccount (Some github_t1), UpdateAccount (Some github_t2)]) = 2
   \<and> live (run (cfg_of SettlesWithWork) [UpdateAccount (Some github_t1), UpdateAccount (Some github_t2)]) = 2"
  by (simp add: live_def two_logins)

lemma login_then_exit:
  "run (cfg_of c) [UpdateAccount (Some github_t1), ProcExit 0 e] =
     \<lparr>the_account = Some github_t1, tunnelProcess = Some 1,
      operations =
        [\<lparr>phase_of = Login, isCancellationRequested = False, child = False,
          work = Fulfilled (), outcome = Fulfilled (), proc = Exited\<rparr>,
         \<lparr>phase_of = Serve, isCancellationRequested = False, child = True,
          work = Pending, outcome = Pending, proc = Running\<rparr>],
      effects =
        [ConsoleLog ''updateAccount'', Fire (DidChangeAccount (Some github_t1)),
         LogInfo ''Account updated: github'', Telemetry True, LogInfo ''login Spawning'',
         Spawn 0 ''code-tunnel'' [''tunnel'', ''user'', ''login'', ''--provider'', ''github'',
                                  ''--access-token'', ''t1''],
         LogInfo ''login exit'', LogInfo ''tunnel Spawning'', Spawn 1 ''code-tunnel'' [''tunnel'']]\<rparr>"
  by (simp add: model_defs)

text \<open>
  C3 as stated fails: the login child exits with code 1 and the serve command is spawned.
\<close>

theorem nonzero_exit_starts_serve:
  "tunnelProcess (run (cfg_of RejectsOnCancel) [UpdateAccount (Some github_t1), ProcExit 0 1]) = Some 1
   \<and> phase_of (operations (run (cfg_of RejectsOnCancel)
                  [UpdateAccount (Some github_t1), ProcExit 0 1]) ! 1) = Serve
   \<and> last (effects (run (cfg_of RejectsOnCancel) [UpdateAccount (Some github_t1), ProcExit 0 1]))
       = Spawn 1 ''code-tunnel'' [''tunnel'']"
  by (simp add: login_then_exit)

text \<open>
  C4 as stated fails: the login child exits with code 1, no token-failed notification is
  fired and the active operation is not cleared.
\<close>

theorem nonzero_exit_no_token_failed:
  "filter is_fire (effects (run (cfg_of RejectsOnCancel) [UpdateAccount (Some github_t1), ProcExit 0 1]))
     = [Fire (DidChangeAccount (Some github_t1))]
   \<and> tunnelProcess (run (cfg_of RejectsOnCancel) [UpdateAccount (Some github_t1), ProcExit 0 1])
       \<noteq> None"
  by (simp add: login_then_exit)

lemma first_login:
  "run (cfg_of c) [UpdateAccount (Some github_t1)] =
     \<lparr>the_account = Some github_t1, tunnelProcess = Some 0,
      operations =
        [\<lparr>phase_of = Login, isCancellationRequested = False, child = True,
          work = Pending, outcome = Pending, proc = Running\<rparr>],
      effects =
        [ConsoleLog ''updateAccount'', Fire (DidChangeAccount (Some github_t1)),
         LogInfo ''Account updated: github'', Telemetry True, LogInfo ''login Spawning'',
         Spawn 0 ''code-tunnel'' [''tunnel'', ''user'', ''login'', ''--provider'', ''github'',
                                  ''--access-token'', ''t1'']]\<rparr>"
  by (simp add: model_defs)

lemma superseded_serve:
  "tunnelProcess (run (cfg_of SettlesWithWork)
      [UpdateAccount (Some github_t1), ProcExit 0 0, UpdateAccount (Some github_t2)]) = Some 2"
  "phase_of (operations (run (cfg_of SettlesWithWork)
      [UpdateAccount (Some github_t1), ProcExit 0 0, UpdateAccount (Some github_t2)]) ! 1) = Serve"
  by (simp_all add: model_defs)

subsection \<open>Cancellation and restart\<close>

lemma cancel_active:
  assumes "i < length (operations s)" "active_ok (operations s ! i)"
  shows "isCancellationRequested (operations (cancel cfg i s) ! i)"
    and "proc (operations (cancel cfg i s) ! i) = Signaled"
    and "effects (cancel cfg i s) =
           effects s @ [LogInfo (logLabel (phase_of (operations s ! i)) @ '' terminating''), Kill i]"
  using assms
  by (simp_all add: cancel_def Let_def active_ok_def signal_def resolve_def reject_def
        split: on_cancel.splits)

lemma continuation_stale:
  assumes "tunnelProcess s \<noteq> Some i"
  shows "operations (continuation cfg i s) = operations s"
    and "\<exists>X. effects (continuation cfg i s) = effects s @ X \<and> filter on_child X = []"
  using assms
  by (auto simp add: continuation_def after_login_def serve_finally_def Let_def
        split: phase.splits promise.splits)

lemma updateTunnelProcess_active:
  assumes "i < length (operations s)" "active_ok (operations s ! i)" "tunnelProcess s = Some i"
  shows "operations (updateTunnelProcess cfg s) ! i = operations (cancel cfg i s) ! i"
    and "\<exists>X. effects (updateTunnelProcess cfg s) =
           effects s @ [LogInfo (logLabel (phase_of (operations s ! i)) @ '' terminating''), Kill i]
             @ (case the_account s of None \<Rightarrow> []
                | Some x \<Rightarrow> [LogInfo ''login Spawning'',
                             Spawn (length (operations s))
                               (fst (spawn_command cfg (login_args x)))
                               (snd (spawn_command cfg (login_args x)))])
             @ X \<and> filter on_child X = []"
proof -
  let ?s1 = "(cancel cfg i s)\<lparr>tunnelProcess := None\<rparr>"
  let ?s2 = "case the_account ?s1 of None \<Rightarrow> ?s1
             | Some a \<Rightarrow> (runCodeTunneCommand cfg Login (login_args a) False ?s1)
                          \<lparr>tunnelProcess := Some (length (operations ?s1))\<rparr>"
  have r: "updateTunnelProcess cfg s = continuation cfg i ?s2 \<or> updateTunnelProcess cfg s = ?s2"
    using assms(3)
    by (cases "the_account s") (simp_all add: updateTunnelProcess_def Let_def login_args_def)
  have stale: "tunnelProcess ?s2 \<noteq> Some i"
    using assms(1) by (cases "the_account s") simp_all
  have ops: "operations ?s2 ! i = operations (cancel cfg i s) ! i"
    using assms(1) by (cases "the_account s") (simp_all add: nth_append)
  have eff: "effects ?s2 =
           effects s @ [LogInfo (logLabel (phase_of (operations s ! i)) @ '' terminating''), Kill i]
             @ (case the_account s of None \<Rightarrow> []
                | Some x \<Rightarrow> [LogInfo ''login Spawning'',
                             Spawn (length (operations s))
                               (fst (spawn_command cfg (login_args x)))
                               (snd (spawn_command cfg (login_args x)))])"
    using cancel_active(3) [OF assms(1,2), of cfg]
    by (cases "the_account s") (simp_all add: logLabel_def)
  from r ops continuation_stale(1) [OF stale, of cfg]
  show "operations (updateTunnelProcess cfg s) ! i = operations (cancel cfg i s) ! i"
    by auto
  from r show "\<exists>X. effects (updateTunnelProcess cfg s) =
           effects s @ [LogInfo (logLabel (phase_of (operations s ! i)) @ '' terminating''), Kill i]
             @ (case the_account s of None \<Rightarrow> []
                | Some x \<Rightarrow> [LogInfo ''login Spawning'',
                             Spawn (length (operations s))
                               (fst (spawn_command cfg (login_args x)))
                               (snd (spawn_command cfg (login_args x)))])
             @ X \<and> filter on_child X = []"
  proof
    assume "updateTunnelProcess cfg s = continuation cfg i ?s2"
    with continuation_stale(2) [OF stale, of cfg] eff show ?thesis by auto
  next
    assume "updateTunnelProcess cfg s = ?s2"
    with eff show ?thesis by auto
  qed
qed

lemma update_active:
  assumes "inv s" "tunnelProcess s = Some i" "a \<noteq> the_account s"
  shows "isCancellationRequested (operations (updateAccount cfg a s) ! i)"
    and "proc (operations (updateAccount cfg a s) ! i) = Signaled"
    and "effects (updateAccount cfg a s) = effects s @ since s (updateAccount cfg a s)"
    and "filter on_child (since s (updateAccount cfg a s)) =
           Kill i # (case a of None \<Rightarrow> []
                     | Some x \<Rightarrow> [Spawn (length (operations s))
                                    (fst (spawn_command cfg (login_args x)))
                                    (snd (spawn_command cfg (login_args x)))])"
proof -
  from assms have i: "i < length (operations s)" and ok: "active_ok (operations s ! i)"
    by (simp_all add: inv_def)
  let ?s0 = "(emit [Fire (DidChangeAccount a),
                       LogInfo (''Account updated: '' @
                                (case a of Some x \<Rightarrow> authenticationProviderId x
                                 | None \<Rightarrow> ''undefined'')),
                       Telemetry (a \<noteq> None)]
                   ((emit [ConsoleLog ''updateAccount''] s)\<lparr>the_account := a\<rparr>))"
  have u: "updateAccount cfg a s = updateTunnelProcess cfg ?s0"
    using assms(3) by (simp add: updateAccount_def Let_def account_changed_iff)
  have i0: "i < length (operations ?s0)" and ok0: "active_ok (operations ?s0 ! i)"
    and t0: "tunnelProcess ?s0 = Some i"
    using i ok assms(2) by simp_all
  note c = cancel_active [OF i0 ok0, of cfg]
  note p = updateTunnelProcess_active [OF i0 ok0 t0, of cfg]
  show "isCancellationRequested (operations (updateAccount cfg a s) ! i)"
    using c(1) p(1) u by simp
  show "proc (operations (updateAccount cfg a s) ! i) = Signaled"
    using c(2) p(1) u by simp
  from p(2) obtain X where X: "effects (updateTunnelProcess cfg ?s0) =
           effects ?s0 @ [LogInfo (logLabel (phase_of (operations ?s0 ! i)) @ '' terminating''), Kill i]
             @ (case the_account ?s0 of None \<Rightarrow> []
                | Some x \<Rightarrow> [LogInfo ''login Spawning'',
                             Spawn (length (operations ?s0))
                               (fst (spawn_command cfg (login_args x)))
                               (snd (spawn_command cfg (login_args x)))])
             @ X" and nX: "filter on_child X = []"
    by blast
  from X show "effects (updateAccount cfg a s) = effects s @ since s (updateAccount cfg a s)"
    unfolding u since_def by simp
  from X nX show "filter on_child (since s (updateAccount cfg a s)) =
           Kill i # (case a of None \<Rightarrow> []
                     | Some x \<Rightarrow> [Spawn (length (operations s))
                                    (fst (spawn_command cfg (login_args x)))
                                    (snd (spawn_command cfg (login_args x)))])"
    unfolding u since_def by (cases a) simp_all
qed

lemma update_idle:
  assumes "tunnelProcess s = None" "a \<noteq> the_account s"
  shows "filter on_child (since s (updateAccount cfg a s)) =
           (case a of None \<Rightarrow> []
            | Some x \<Rightarrow> [Spawn (length (operations s))
                           (fst (spawn_command cfg (login_args x)))
                           (snd (spawn_command cfg (login_args x)))])"
  using assms
  by (cases a)
     (simp_all add: updateAccount_def updateTunnelProcess_def account_changed_iff Let_def
        since_def login_args_def)

text \<open>
  C1 (as amended). In a state the service can reach, a call of \<open>updateAccount\<close> that changes
  the account while an operation is active flips the token of that operation and signals
  its child, and of the effects on children the \<open>Kill\<close> comes first, followed by the
  \<open>Spawn\<close> of the one new login command when the new account is present. The signalled
  child is not waited for. Without an active operation the only effect on children is
  that \<open>Spawn\<close>.
\<close>

theorem cancellation_precedes_restart:
  "(tunnelProcess (run cfg es) = Some i \<and> a \<noteq> the_account (run cfg es) \<longrightarrow>
      isCancellationRequested (operations (updateAccount cfg a (run cfg es)) ! i)
      \<and> proc (operations (updateAccount cfg a (run cfg es)) ! i) = Signaled
      \<and> effects (updateAccount cfg a (run cfg es))
          = effects (run cfg es) @ since (run cfg es) (updateAccount cfg a (run cfg es))
      \<and> filter on_child (since (run cfg es) (updateAccount cfg a (run cfg es))) =
          Kill i # (case a of None \<Rightarrow> []
                    | Some x \<Rightarrow> [Spawn (length (operations (run cfg es)))
                                   (fst (spawn_command cfg (login_args x)))
                                   (snd (spawn_command cfg (login_args x)))]))
   \<and> (tunnelProcess s = None \<and> a \<noteq> the_account s \<longrightarrow>
        filter on_child (since s (updateAccount cfg a s)) =
          (case a of None \<Rightarrow> []
           | Some x \<Rightarrow> [Spawn (length (operations s))
                          (fst (spawn_command cfg (login_args x)))
                          (snd (spawn_command cfg (login_args x)))]))"
proof (intro conjI impI)
  assume h: "tunnelProcess (run cfg es) = Some i \<and> a \<noteq> the_account (run cfg es)"
  have inv: "inv (run cfg es)" by (rule run_inv)
  from h have t: "tunnelProcess (run cfg es) = Some i" and c: "a \<noteq> the_account (run cfg es)"
    by simp_all
  note u = update_active [OF inv t c, of cfg]
  show "isCancellationRequested (operations (updateAccount cfg a (run cfg es)) ! i)" by (rule u)
  show "proc (operations (updateAccount cfg a (run cfg es)) ! i) = Signaled" by (rule u)
  show "effects (updateAccount cfg a (run cfg es))
          = effects (run cfg es) @ since (run cfg es) (updateAccount cfg a (run cfg es))" by (rule u)
  show "filter on_child (since (run cfg es) (updateAccount cfg a (run cfg es))) =
          Kill i # (case a of None \<Rightarrow> []
                    | Some x \<Rightarrow> [Spawn (length (operations (run cfg es)))
                                   (fst (spawn_command cfg (login_args x)))
                                   (snd (spawn_command cfg (login_args x)))])" by (rule u)
next
  assume "tunnelProcess s = None \<and> a \<noteq> the_account s"
  then show "filter on_child (since s (updateAccount cfg a s)) =
          (case a of None \<Rightarrow> []
           | Some x \<Rightarrow> [Spawn (length (operations s))
                          (fst (spawn_command cfg (login_args x)))
                          (snd (spawn_command cfg (login_args x)))])"
    using update_idle [of s a cfg] by blast
qed

text \<open>
  The scenario of the spec: account A is served, \<open>updateAccount(B)\<close> signals the serve child
  and then spawns the login for B.
\<close>

theorem cancellation_precedes_restart_witness:
  "tunnelProcess (run (cfg_of RejectsOnCancel) [UpdateAccount (Some github_t1), ProcExit 0 0]) = Some 1
   \<and> Some github_t2 \<noteq> the_account (run (cfg_of RejectsOnCancel)
                                        [UpdateAccount (Some github_t1), ProcExit 0 0])
   \<and> proc (operations (updateAccount (cfg_of RejectsOnCancel) (Some github_t2)
        (run (cfg_of RejectsOnCancel) [UpdateAccount (Some github_t1), ProcExit 0 0])) ! 1) = Signaled
   \<and> filter on_child (since (run (cfg_of RejectsOnCancel) [UpdateAccount (Some github_t1), ProcExit 0 0])
        (updateAccount (cfg_of RejectsOnCancel) (Some github_t2)
           (run (cfg_of RejectsOnCancel) [UpdateAccount (Some github_t1), ProcExit 0 0])))
       = [Kill 1, Spawn 2 ''code-tunnel'' [''tunnel'', ''user'', ''login'', ''--provider'', ''github'',
                                           ''--access-token'', ''t2'']]"
proof -
  let ?c = "cfg_of RejectsOnCancel"
  let ?s = "run ?c [UpdateAccount (Some github_t1), ProcExit 0 0]"
  have h: "tunnelProcess ?s = Some 1 \<and> Some github_t2 \<noteq> the_account ?s"
    unfolding login_then_exit by (simp add: github_t1_def github_t2_def)
  have l: "length (operations ?s) = 2" by (simp add: login_then_exit)
  from cancellation_precedes_restart [of ?c "[UpdateAccount (Some github_t1), ProcExit 0 0]" 1
         "Some github_t2" service_init] h
  have "proc (operations (updateAccount ?c (Some github_t2) ?s) ! 1) = Signaled
        \<and> filter on_child (since ?s (updateAccount ?c (Some github_t2) ?s)) =
            [Kill 1, Spawn (length (operations ?s)) (fst (spawn_command ?c (login_args github_t2)))
               (snd (spawn_command ?c (login_args github_t2)))]" by simp
  with h l show ?thesis
    by (simp add: spawn_command_def cfg_of_def login_args_def github_t2_def)
qed

subsection \<open>Instances\<close>

text \<open>
  The serve child exits with code 1 while active; and the exit of a superseded serve child.
\<close>

theorem serve_exit_reported_once_witness:
  "tunnelProcess (run (cfg_of SettlesWithWork) [UpdateAccount (Some github_t1), ProcExit 0 0]) = Some 1
   \<and> phase_of (operations (run (cfg_of SettlesWithWork)
        [UpdateAccount (Some github_t1), ProcExit 0 0]) ! 1) = Serve
   \<and> tunnelProcess (step (cfg_of SettlesWithWork) (ProcExit 1 1)
        (run (cfg_of SettlesWithWork) [UpdateAccount (Some github_t1), ProcExit 0 0])) = None
   \<and> the_account (step (cfg_of SettlesWithWork) (ProcExit 1 1)
        (run (cfg_of SettlesWithWork) [UpdateAccount (Some github_t1), ProcExit 0 0])) = None
   \<and> tunnelProcess (updateAccount (cfg_of SettlesWithWork) (Some github_t1)
        (step (cfg_of SettlesWithWork) (ProcExit 1 1)
           (run (cfg_of SettlesWithWork) [UpdateAccount (Some github_t1), ProcExit 0 0]))) = Some 2
   \<and> tunnelProcess (run (cfg_of SettlesWithWork)
        [UpdateAccount (Some github_t1), ProcExit 0 0, UpdateAccount (Some github_t2)]) \<noteq> Some 1
   \<and> tunnelProcess (step (cfg_of SettlesWithWork) (ProcExit 1 1)
        (run (cfg_of SettlesWithWork)
           [UpdateAccount (Some github_t1), ProcExit 0 0, UpdateAccount (Some github_t2)])) = Some 2"
proof -
  let ?c = "cfg_of SettlesWithWork"
  let ?es = "[UpdateAccount (Some github_t1), ProcExit 0 0]"
  let ?s = "run ?c [UpdateAccount (Some github_t1), ProcExit 0 0, UpdateAccount (Some github_t2)]"
  have h1: "tunnelProcess (run ?c ?es) = Some 1 \<and> phase_of (operations (run ?c ?es) ! 1) = Serve"
    by (simp add: login_then_exit)
  have l: "length (operations (run ?c ?es)) = 2" by (simp add: login_then_exit)
  have h2: "tunnelProcess ?s \<noteq> Some 1 \<and> phase_of (operations ?s ! 1) = Serve"
    using superseded_serve by simp
  from serve_exit_reported_once [of ?c ?es 1 1 github_t1 ?s] h1 h2 l superseded_serve(1)
  show ?thesis by simp
qed

text \<open>
  The first login child exits with code 1, or emits \<open>error\<close>.
\<close>

theorem login_succeeds_on_any_exit_witness:
  "tunnelProcess (run (cfg_of RejectsOnCancel) [UpdateAccount (Some github_t1)]) = Some 0
   \<and> phase_of (operations (run (cfg_of RejectsOnCancel) [UpdateAccount (Some github_t1)]) ! 0) = Login
   \<and> tunnelProcess (step (cfg_of RejectsOnCancel) (ProcExit 0 1)
        (run (cfg_of RejectsOnCancel) [UpdateAccount (Some github_t1)])) = Some 1
   \<and> phase_of (operations (step (cfg_of RejectsOnCancel) (ProcExit 0 1)
        (run (cfg_of RejectsOnCancel) [UpdateAccount (Some github_t1)])) ! 1) = Serve
   \<and> tunnelProcess (step (cfg_of RejectsOnCancel) (ProcError 0)
        (run (cfg_of RejectsOnCancel) [UpdateAccount (Some github_t1)])) = None"
proof -
  let ?c = "cfg_of RejectsOnCancel"
  let ?es = "[UpdateAccount (Some github_t1)]"
  have h: "tunnelProcess (run ?c ?es) = Some 0 \<and> phase_of (operations (run ?c ?es) ! 0) = Login"
    by (simp add: first_login)
  have l: "length (operations (run ?c ?es)) = 1" by (simp add: first_login)
  from login_succeeds_on_any_exit [of ?c ?es 0 1] h l show ?thesis by simp
qed

text \<open>
  The first login child emits \<open>error\<close>, or exits with code 1.
\<close>

theorem token_failed_on_login_error_witness:
  "tunnelProcess (run (cfg_of SettlesWithWork) [UpdateAccount (Some github_t1)]) = Some 0
   \<and> phase_of (operations (run (cfg_of SettlesWithWork) [UpdateAccount (Some github_t1)]) ! 0) = Login
   \<and> the_account (step (cfg_of SettlesWithWork) (ProcError 0)
        (run (cfg_of SettlesWithWork) [UpdateAccount (Some github_t1)])) = Some github_t1
   \<and> filter is_fire (effects (step (cfg_of SettlesWithWork) (ProcError 0)
        (run (cfg_of SettlesWithWork) [UpdateAccount (Some github_t1)])))
       = [Fire (DidChangeAccount (Some github_t1)), Fire (TokenFailed True)]
   \<and> filter is_fire (since (run (cfg_of SettlesWithWork) [UpdateAccount (Some github_t1)])
        (step (cfg_of SettlesWithWork) (ProcExit 0 1)
           (run (cfg_of SettlesWithWork) [UpdateAccount (Some github_t1)]))) = []"
proof -
  let ?c = "cfg_of SettlesWithWork"
  let ?es = "[UpdateAccount (Some github_t1)]"
  have h: "tunnelProcess (run ?c ?es) = Some 0 \<and> phase_of (operations (run ?c ?es) ! 0) = Login"
    by (simp add: first_login)
  have a: "the_account (run ?c ?es) = Some github_t1"
    and e: "filter is_fire (effects (run ?c ?es)) = [Fire (DidChangeAccount (Some github_t1))]"
    by (simp_all add: first_login)
  from token_failed_on_login_error [of ?c ?es 0 1 0 service_init True] h
  have "the_account (step ?c (ProcError 0) (run ?c ?es)) = the_account (run ?c ?es)
        \<and> effects (step ?c (ProcError 0) (run ?c ?es)) =
            effects (run ?c ?es) @ [LogInfo ''login error'', LogError, Fire (TokenFailed True)]
        \<and> filter is_fire (since (run ?c ?es) (step ?c (ProcExit 0 1) (run ?c ?es))) = []"
    by blast
  with h a e show ?thesis by simp
qed


text \<open>
  Account A is served: \<open>updateAccount(A)\<close> changes nothing, and of two calls
  \<open>updateAccount(B)\<close> in a row the second changes nothing.
\<close>

theorem updateAccount_idempotent_witness:
  "\<not> account_changed (Some github_t1) (Some github_t1)
   \<and> account_changed (Some github_t2) (Some github_t1)
   \<and> updateAccount (cfg_of RejectsOnCancel) (Some github_t1)
        (run (cfg_of RejectsOnCancel) [UpdateAccount (Some github_t1), ProcExit 0 0])
       = emit [ConsoleLog ''updateAccount'']
           (run (cfg_of RejectsOnCancel) [UpdateAccount (Some github_t1), ProcExit 0 0])
   \<and> updateAccount (cfg_of RejectsOnCancel) (Some github_t2)
        (updateAccount (cfg_of RejectsOnCancel) (Some github_t2)
           (run (cfg_of RejectsOnCancel) [UpdateAccount (Some github_t1), ProcExit 0 0]))
       = emit [ConsoleLog ''updateAccount'']
           (updateAccount (cfg_of RejectsOnCancel) (Some github_t2)
              (run (cfg_of RejectsOnCancel) [UpdateAccount (Some github_t1), ProcExit 0 0]))"
proof -
  let ?c = "cfg_of RejectsOnCancel"
  let ?s = "run ?c [UpdateAccount (Some github_t1), ProcExit 0 0]"
  have t: "token github_t2 \<noteq> token github_t1" by (simp add: github_t1_def github_t2_def)
  have a: "the_account ?s = Some github_t1" by (simp add: login_then_exit)
  from updateAccount_idempotent [where x = github_t1 and y = github_t1]
  have 1: "\<not> account_changed (Some github_t1) (Some github_t1)" by simp
  from updateAccount_idempotent [where x = github_t2 and y = github_t1] t
  have 2: "account_changed (Some github_t2) (Some github_t1)" by simp
  from updateAccount_idempotent [where a = "Some github_t1" and s = ?s and cfg = ?c] 1 a
  have 3: "updateAccount ?c (Some github_t1) ?s = emit [ConsoleLog ''updateAccount''] ?s"
    by simp
  from updateAccount_idempotent [where a = "Some github_t2" and cfg = ?c
         and es = "[UpdateAccount (Some github_t1), ProcExit 0 0]"]
  have 4: "updateAccount ?c (Some github_t2) (updateAccount ?c (Some github_t2) ?s)
       = emit [ConsoleLog ''updateAccount''] (updateAccount ?c (Some github_t2) ?s)"
    by blast
  from 1 2 3 4 show ?thesis by blast
qed

subsection \<open>What depends on how a cancelled operation settles\<close>

text \<open>
  When \<open>cancel()\<close> rejects the operation, the \<open>catch\<close> block of \<open>updateTunnelProcess\<close> runs for
  the cancelled login as it does for a failed one: it fires token-failed and clears
  \<open>_tunnelProcess\<close>, which by then holds the new login operation. That login is then no
  longer the active operation, so no serve command follows its exit, and a later update
  does not signal its child. With the other two choices a cancellation alone does none
  of this; but when the operation settles with its work, an \<open>error\<close> event of the signalled
  child rejects the cancelled login later, with the same result. The test of the token
  at the start of \<open>runCodeTunneCommand\<close> does not prevent the spawn.
\<close>

lemma cancelled_login_rejecting:
  "tunnelProcess (run (cfg_of RejectsOnCancel)
      [UpdateAccount (Some github_t1), UpdateAccount (Some github_t2)]) = None"
  "filter is_fire (effects (run (cfg_of RejectsOnCancel)
      [UpdateAccount (Some github_t1), UpdateAccount (Some github_t2)])) =
     [Fire (DidChangeAccount (Some github_t1)), Fire (DidChangeAccount (Some github_t2)),
      Fire (TokenFailed True)]"
  "length (operations (run (cfg_of RejectsOnCancel)
      [UpdateAccount (Some github_t1), UpdateAccount (Some github_t2), ProcExit 1 0])) = 2"
  "map proc (operations (run (cfg_of RejectsOnCancel)
      [UpdateAccount (Some github_t1), UpdateAccount (Some github_t2),
       UpdateAccount None, UpdateAccount (Some github_t1)])) = [Signaled, Running, Running]"
  by (simp_all add: model_defs)

lemma cancelled_login_otherwise:
  "c \<noteq> RejectsOnCancel \<Longrightarrow>
   tunnelProcess (run (cfg_of c)
      [UpdateAccount (Some github_t1), UpdateAccount (Some github_t2)]) = Some 1
   \<and> filter is_fire (effects (run (cfg_of c)
      [UpdateAccount (Some github_t1), UpdateAccount (Some github_t2)])) =
     [Fire (DidChangeAccount (Some github_t1)), Fire (DidChangeAccount (Some github_t2))]"
  by (cases c) (simp_all add: model_defs)

lemma cancelled_login_late_error:
  "tunnelProcess (run (cfg_of SettlesWithWork)
      [UpdateAccount (Some github_t1), UpdateAccount (Some github_t2), ProcError 0]) = None"
  "filter is_fire (effects (run (cfg_of SettlesWithWork)
      [UpdateAccount (Some github_t1), UpdateAccount (Some github_t2), ProcError 0])) =
     [Fire (DidChangeAccount (Some github_t1)), Fire (DidChangeAccount (Some github_t2)),
      Fire (TokenFailed True)]"
  by (simp_all add: model_defs)

lemma cancelled_token_still_spawns:
  "filter on_child (since s (runCodeTunneCommand cfg ph args True s)) =
     [Spawn (length (operations s)) (fst (spawn_command cfg args)) (snd (spawn_command cfg args))]"
  by (simp add: since_def)

section \<open>Properties of the logger registry\<close>

lemma push_loop: "foldl (\<lambda>resources r. if P r then resources @ [r] else resources) acc xs
                  = acc @ filter P xs"
  by (induction xs arbitrary: acc) simp_all

lemma getRegisteredLoggers_filter:
  "getRegisteredLoggers s windowId =
     filter (\<lambda>r. isInterestedLoggerResource s (resource r) windowId) (registered s)"
  by (simp add: getRegisteredLoggers_def push_loop)

lemma register_all_snoc:
  "register_all sreg (calls @ [c]) = registerLogger sreg (fst c) (snd c) (register_all sreg calls)"
  by (simp add: register_all_def)

lemma fresh_resource:
  fixes calls :: "(logger_resource \<times> nat option) list"
  assumes "resource (fst c) \<notin> (\<lambda>c. resource (fst c)) ` set calls" "c' \<in> set calls"
  shows "resource (fst c') \<noteq> resource (fst c)"
proof
  assume e: "resource (fst c') = resource (fst c)"
  from assms(2) have "(\<lambda>c. resource (fst c)) c' \<in> (\<lambda>c. resource (fst c)) ` set calls"
    by (rule imageI)
  with e assms(1) show False by simp
qed

lemma registerLogger_fields:
  "registered (registerLogger sreg r wid s) = sreg r (registered s)"
  "loggerResourcesByWindow (registerLogger sreg r wid s) =
     (case wid of None \<Rightarrow> loggerResourcesByWindow s
      | Some w \<Rightarrow> (loggerResourcesByWindow s)(resource r \<mapsto> w))"
  by (simp_all add: registerLogger_def Let_def split: option.splits)

lemma register_all_state:
  assumes base: "\<And>r rs. resource r \<notin> resource ` set rs \<Longrightarrow> sreg r rs = rs @ [r]"
  shows "distinct (map (\<lambda>c. resource (fst c)) calls) \<Longrightarrow>
         registered (register_all sreg calls) = map fst calls \<and>
         (\<forall>c\<in>set calls. loggerResourcesByWindow (register_all sreg calls) (resource (fst c)) = snd c) \<and>
         (\<forall>u. (\<forall>c\<in>set calls. resource (fst c) \<noteq> u) \<longrightarrow>
                loggerResourcesByWindow (register_all sreg calls) u = None)"
proof (induction calls rule: rev_induct)
  case Nil
  then show ?case by (simp add: register_all_def logger_main_init_def)
next
  case (snoc c calls)
  let ?s = "register_all sreg calls"
  let ?s' = "register_all sreg (calls @ [c])"
  from snoc.prems have d: "distinct (map (\<lambda>c. resource (fst c)) calls)"
    and notin: "resource (fst c) \<notin> (\<lambda>c. resource (fst c)) ` set calls" by simp_all
  from fresh_resource [OF notin]
  have new: "\<forall>c'\<in>set calls. resource (fst c') \<noteq> resource (fst c)" by blast
  from snoc.IH [OF d] have reg: "registered ?s = map fst calls"
    and bound: "\<forall>c\<in>set calls. loggerResourcesByWindow ?s (resource (fst c)) = snd c"
    and free: "\<forall>u. (\<forall>c\<in>set calls. resource (fst c) \<noteq> u) \<longrightarrow> loggerResourcesByWindow ?s u = None"
    by blast+
  have "resource (fst c) \<notin> resource ` set (map fst calls)"
  proof
    assume "resource (fst c) \<in> resource ` set (map fst calls)"
    then obtain r where r: "r \<in> set (map fst calls)" and e: "resource (fst c) = resource r"
      by (rule imageE)
    from r obtain c' where c': "c' \<in> set calls" and rc: "r = fst c'" by auto
    from new c' have "resource (fst c') \<noteq> resource (fst c)" by (rule bspec)
    with e rc show False by simp
  qed
  then have app: "sreg (fst c) (map fst calls) = map fst calls @ [fst c]" by (rule base)
  have s': "?s' = registerLogger sreg (fst c) (snd c) ?s" by (rule register_all_snoc)
  have 1: "registered ?s' = map fst (calls @ [c])"
    by (simp add: s' registerLogger_fields reg app)
  have other: "loggerResourcesByWindow ?s' u = loggerResourcesByWindow ?s u"
    if "u \<noteq> resource (fst c)" for u
    using that by (simp add: s' registerLogger_fields split: option.splits)
  have own: "loggerResourcesByWindow ?s' (resource (fst c)) = snd c"
  proof (cases "snd c")
    case None
    moreover from free new have "loggerResourcesByWindow ?s (resource (fst c)) = None" by blast
    ultimately show ?thesis by (simp add: s' registerLogger_fields)
  next
    case (Some w)
    then show ?thesis by (simp add: s' registerLogger_fields)
  qed
  have 2: "\<forall>c'\<in>set (calls @ [c]). loggerResourcesByWindow ?s' (resource (fst c')) = snd c'"
  proof
    fix c' assume "c' \<in> set (calls @ [c])"
    then consider "c' \<in> set calls" | "c' = c" by auto
    then show "loggerResourcesByWindow ?s' (resource (fst c')) = snd c'"
    proof cases
      case 1
      with new have "resource (fst c') \<noteq> resource (fst c)" by blast
      with other bound 1 show ?thesis by simp
    next
      case 2
      with own show ?thesis by simp
    qed
  qed
  have 3: "\<forall>u. (\<forall>c'\<in>set (calls @ [c]). resource (fst c') \<noteq> u) \<longrightarrow>
                loggerResourcesByWindow ?s' u = None"
  proof (intro allI impI)
    fix u assume u: "\<forall>c'\<in>set (calls @ [c]). resource (fst c') \<noteq> u"
    then have "u \<noteq> resource (fst c)" by auto
    moreover from u free have "loggerResourcesByWindow ?s u = None" by simp
    ultimately show "loggerResourcesByWindow ?s' u = None" using other by simp
  qed
  from 1 2 3 show ?case by blast
qed

lemma bound_window_Nil: "bound_window [] u = None"
  by (simp add: bound_window_def)

lemma bound_window_snoc:
  "bound_window (calls @ [c]) u =
     (if resource (fst c) = u \<and> snd c \<noteq> None then snd c else bound_window calls u)"
proof (cases "resource (fst c) = u \<and> snd c \<noteq> None")
  case True
  then have "filter (\<lambda>c. resource (fst c) = u \<and> snd c \<noteq> None) (calls @ [c]) =
             filter (\<lambda>c. resource (fst c) = u \<and> snd c \<noteq> None) calls @ [c]" by simp
  then have "bound_window (calls @ [c]) u = snd c"
    unfolding bound_window_def
    by (cases "filter (\<lambda>c. resource (fst c) = u \<and> snd c \<noteq> None) calls") simp_all
  moreover from True
  have "(if resource (fst c) = u \<and> snd c \<noteq> None then snd c else bound_window calls u) = snd c"
    by (rule if_P)
  ultimately show ?thesis by (simp only:)
next
  case False
  then have "filter (\<lambda>c. resource (fst c) = u \<and> snd c \<noteq> None) (calls @ [c]) =
             filter (\<lambda>c. resource (fst c) = u \<and> snd c \<noteq> None) calls" by auto
  then have "bound_window (calls @ [c]) u = bound_window calls u"
    by (simp only: bound_window_def)
  moreover from False
  have "(if resource (fst c) = u \<and> snd c \<noteq> None then snd c else bound_window calls u)
          = bound_window calls u" by (rule if_not_P)
  ultimately show ?thesis by (simp only:)
qed

lemma binding_of_history:
  "loggerResourcesByWindow (register_all sreg calls) u = bound_window calls u"
proof (induction calls rule: rev_induct)
  case Nil
  show ?case by (simp add: register_all_def logger_main_init_def bound_window_Nil)
next
  case (snoc c calls)
  show ?case
  proof (cases "snd c")
    case None
    with snoc show ?thesis
      by (simp add: register_all_snoc registerLogger_fields bound_window_snoc)
  next
    case (Some w)
    with snoc show ?thesis
      by (simp add: register_all_snoc registerLogger_fields bound_window_snoc)
  qed
qed

text \<open>
  C10 (as amended). \<open>getRegisteredLoggers(w)\<close> returns, in the order of the registry, exactly
  the registered resources whose URI is bound to no window or to \<open>w\<close>. After any history
  of \<open>registerLogger\<close> calls on a new service, whatever the base registry does, a URI is
  bound to the window id of the latest call for it that carried one, and to none if no
  call for it carried one: a call without a window id leaves an earlier binding in place.
  So the result holds the registered resources whose URI was never registered with a
  window id or was last so registered with \<open>w\<close>. When every URI is registered once (the
  base registry appending each new resource), these are the resources registered without
  a window id or with window id \<open>w\<close>.
\<close>

theorem registered_loggers_of_window:
  "getRegisteredLoggers s windowId =
     filter (\<lambda>r. loggerResourcesByWindow s (resource r) = None
                 \<or> loggerResourcesByWindow s (resource r) = windowId) (registered s)
   \<and> loggerResourcesByWindow (register_all super_registerLogger calls) u = bound_window calls u
   \<and> getRegisteredLoggers (register_all super_registerLogger calls) (Some w) =
       filter (\<lambda>r. bound_window calls (resource r) = None
                   \<or> bound_window calls (resource r) = Some w)
         (registered (register_all super_registerLogger calls))
   \<and> ((\<forall>r rs. resource r \<notin> resource ` set rs \<longrightarrow> super_registerLogger r rs = rs @ [r])
        \<and> distinct (map (\<lambda>c. resource (fst c)) calls) \<longrightarrow>
      getRegisteredLoggers (register_all super_registerLogger calls) (Some w) =
        map fst (filter (\<lambda>c. snd c = None \<or> snd c = Some w) calls))"
proof (intro conjI impI)
  show "getRegisteredLoggers s windowId =
     filter (\<lambda>r. loggerResourcesByWindow s (resource r) = None
                 \<or> loggerResourcesByWindow s (resource r) = windowId) (registered s)"
    by (simp add: getRegisteredLoggers_filter isInterestedLoggerResource_def Let_def)
next
  show "loggerResourcesByWindow (register_all super_registerLogger calls) u = bound_window calls u"
    by (rule binding_of_history)
next
  show "getRegisteredLoggers (register_all super_registerLogger calls) (Some w) =
       filter (\<lambda>r. bound_window calls (resource r) = None
                   \<or> bound_window calls (resource r) = Some w)
         (registered (register_all super_registerLogger calls))"
    by (simp add: getRegisteredLoggers_filter isInterestedLoggerResource_def Let_def
          binding_of_history)
next
  assume h: "(\<forall>r rs. resource r \<notin> resource ` set rs \<longrightarrow> super_registerLogger r rs = rs @ [r])
        \<and> distinct (map (\<lambda>c. resource (fst c)) calls)"
  let ?s = "register_all super_registerLogger calls"
  from h have base: "\<And>r rs. resource r \<notin> resource ` set rs \<Longrightarrow> super_registerLogger r rs = rs @ [r]"
    and d: "distinct (map (\<lambda>c. resource (fst c)) calls)" by simp_all
  from register_all_state [of super_registerLogger calls, OF base d]
  have reg: "registered ?s = map fst calls"
    and bound: "\<forall>c\<in>set calls. loggerResourcesByWindow ?s (resource (fst c)) = snd c"
    by blast+
  have "getRegisteredLoggers ?s (Some w) =
          map fst (filter (\<lambda>c. isInterestedLoggerResource ?s (resource (fst c)) (Some w)) calls)"
    by (simp add: getRegisteredLoggers_filter reg filter_map comp_def)
  also have "filter (\<lambda>c. isInterestedLoggerResource ?s (resource (fst c)) (Some w)) calls =
             filter (\<lambda>c. snd c = None \<or> snd c = Some w) calls"
    using bound by (intro filter_cong) (simp_all add: isInterestedLoggerResource_def Let_def)
  finally show "getRegisteredLoggers ?s (Some w) =
        map fst (filter (\<lambda>c. snd c = None \<or> snd c = Some w) calls)" .
qed

text \<open>
  C10 as stated fails: a resource registered for window 1 and then again without a window
  id is not returned for window 2, and neither is one registered without a window id and
  then again for window 1; both are in the registry.
\<close>

theorem rebinding_counterexample:
  "registered (register_all keep_first [(window1_log, Some 1), (window1_log, None)]) = [window1_log]
   \<and> getRegisteredLoggers (register_all keep_first [(window1_log, Some 1), (window1_log, None)])
        (Some 2) = []
   \<and> registered (register_all keep_first [(main_log, None), (main_log, Some 1)]) = [main_log]
   \<and> getRegisteredLoggers (register_all keep_first [(main_log, None), (main_log, Some 1)])
        (Some 2) = []"
  by (simp add: register_all_def registerLogger_def getRegisteredLoggers_def
        isInterestedLoggerResource_def logger_main_init_def keep_first_def
        window1_log_def main_log_def Let_def)

text \<open>
  One logger of the main process and one of each of two windows, seen from window 1.
\<close>

theorem registered_loggers_of_window_witness:
  "getRegisteredLoggers
     (register_all keep_first [(main_log, None), (window1_log, Some 1), (window2_log, Some 2)])
     (Some 1) = [main_log, window1_log]"
proof -
  have h: "(\<forall>r rs. resource r \<notin> resource ` set rs \<longrightarrow> keep_first r rs = rs @ [r])
        \<and> distinct (map (\<lambda>c. resource (fst c))
                      [(main_log, None), (window1_log, Some (1::nat)), (window2_log, Some 2)])"
    by (simp add: keep_first_def main_log_def window1_log_def window2_log_def)
  from registered_loggers_of_window
         [where super_registerLogger = keep_first
            and calls = "[(main_log, None), (window1_log, Some 1), (window2_log, Some 2)]"
            and w = 1]
       h
  have "getRegisteredLoggers
     (register_all keep_first [(main_log, None), (window1_log, Some 1), (window2_log, Some 2)])
     (Some 1) = map fst (filter (\<lambda>c. snd c = None \<or> snd c = Some 1)
                   [(main_log, None), (window1_log, Some (1::nat)), (window2_log, Some 2)])"
    by blast
  then show ?thesis by simp
qed

lemma registration_without_window_keeps_binding:
  "loggerResourcesByWindow (registerLogger sreg r None s) = loggerResourcesByWindow s"
  by (simp add: registerLogger_def)

end
